theory Spec2Isabelle
  imports Main "HOL-Library.Sublist"
begin

section \<open>Values exchanged with the outside\<close>

text \<open>
  The values \<^verbatim>\<open>json.loads\<close> produces. They are dynamically typed in the source, and the
  research loop iterates over whatever the parser returned, so the model keeps the
  whole universe. A number is kept as its literal (no function below looks at its value);
  an object is the list of its key/value pairs in insertion order, with distinct keys.
\<close>

datatype json =
    JNull
  | JBool bool
  | JNum string
  | JStr string
  | JArr "json list"
  | JObj "(string \<times> json) list"

text \<open>
  The exceptions the modelled code can end with. The last two are the two places where
  \<^verbatim>\<open>get_more_queries\<close> reports with \<^verbatim>\<open>st.error\<close> and then halts the script with
  \<^verbatim>\<open>st.stop()\<close>; the second one carries the offending text that the message shows.
  \<open>GatewayError\<close> stands for any exception raised by \<^verbatim>\<open>client.responses.create\<close>
  itself, \<open>JSONDecodeError\<close> for any raised by \<^verbatim>\<open>json.loads\<close>.
\<close>

datatype error =
    GatewayError
  | IndexError
  | KeyError string
  | TypeError
  | JSONDecodeError
  | StopEmptyResponse
  | StopInvalidJSON string

text \<open>
  A gateway response as the source reads it: \<^verbatim>\<open>response.output\<close> is a sequence of items,
  an item has an \<^verbatim>\<open>id\<close> and a sequence \<^verbatim>\<open>content\<close>, and a content part has a \<^verbatim>\<open>text\<close>
  (the model keeps the texts of the parts).
\<close>

record output_item =
  item_id :: string
  content :: "string list"

type_synonym response = "output_item list"

text \<open>The dictionary built by \<^verbatim>\<open>run_search\<close>.\<close>

record evidence_item =
  query :: json
  resp_id :: string
  research_output :: string

text \<open>
  One call of \<^verbatim>\<open>client.responses.create\<close>. Each constructor keeps the values the calling
  function formats into its prompt or messages (the prompt wording and the
  \<^verbatim>\<open>json.dumps\<close> serialisation are not modelled), and \<open>ExpandReq\<close> also the
  \<^verbatim>\<open>previous_response_id\<close> argument.
\<close>

datatype request =
    PlanReq "string list" "string list" string
  | SearchReq json
  | EvalReq "evidence_item list" json
  | ExpandReq "evidence_item list" json "string option"

text \<open>
  What the program does not define itself: the gateway, which answers a request given
  the calls made before it, and \<^verbatim>\<open>json.loads\<close> of the standard library. In both,
  \<open>None\<close> stands for a raised exception.
\<close>

record world =
  create :: "request list \<Rightarrow> request \<Rightarrow> response option"
  loads :: "string \<Rightarrow> json option"

text \<open>
  The keys of \<^verbatim>\<open>st.session_state\<close>, and \<open>calls\<close>, the gateway calls made so far, oldest
  first. The local name \<^verbatim>\<open>collected\<close> of the research step is the very list object stored
  under the key \<^verbatim>\<open>collected\<close>, so an \<^verbatim>\<open>append\<close> is an update of that field.
\<close>

record state =
  step :: int
  topic :: string
  questions :: "string list"
  answers :: "string list"
  goal :: json
  queries :: json
  collected :: "evidence_item list"
  report :: string
  calls :: "request list"

section \<open>Python primitives\<close>

text \<open>\<^verbatim>\<open>xs[i]\<close> for a list and an index that is not negative.\<close>

definition py_index :: "'a list \<Rightarrow> nat \<Rightarrow> error + 'a" where
  "py_index xs i = (if i < length xs then Inr (xs ! i) else Inl IndexError)"

text \<open>\<^verbatim>\<open>v[k]\<close> for a string key \<open>k\<close>: only a dict accepts it.\<close>

fun py_getitem :: "json \<Rightarrow> string \<Rightarrow> error + json" where
  "py_getitem (JObj kvs) k = (case map_of kvs k of None \<Rightarrow> Inl (KeyError k) | Some v \<Rightarrow> Inr v)"
| "py_getitem _ k = Inl TypeError"

text \<open>
  A Python \<^verbatim>\<open>str\<close> is held as the bytes of its UTF-8 encoding. A character of the
  \<^verbatim>\<open>str\<close> is then a byte that is no continuation byte, together with the continuation
  bytes (\<^verbatim>\<open>0x80\<close> to \<^verbatim>\<open>0xBF\<close>) that follow it.
\<close>

definition is_continuation :: "char \<Rightarrow> bool" where
  "is_continuation c = (let n = (of_char c :: nat) in 128 \<le> n \<and> n < 192)"

function str_chars :: "string \<Rightarrow> string list" where
  "str_chars [] = []"
| "str_chars (c # cs) =
     (c # takeWhile is_continuation cs) # str_chars (dropWhile is_continuation cs)"
  by pat_completeness auto
termination
  by (relation "measure length") (auto simp: length_dropWhile_le less_Suc_eq_le)

text \<open>
  The items \<^verbatim>\<open>for q in v\<close> visits: the elements of a list, the keys of a dict, the
  characters of a string; any other value is not iterable.
\<close>

fun py_iter :: "json \<Rightarrow> error + json list" where
  "py_iter (JArr xs) = Inr xs"
| "py_iter (JObj kvs) = Inr (map (\<lambda>kv. JStr (fst kv)) kvs)"
| "py_iter (JStr cs) = Inr (map JStr (str_chars cs))"
| "py_iter _ = Inl TypeError"

text \<open>
  \<^verbatim>\<open>str.lower\<close> on the ASCII letters. Bytes outside ASCII are left as they are;
  \<^verbatim>\<open>str.lower\<close> maps no character outside ASCII to \<^verbatim>\<open>y\<close>, \<^verbatim>\<open>e\<close> or \<^verbatim>\<open>s\<close>.
\<close>

definition lower_char :: "char \<Rightarrow> char" where
  "lower_char c =
     (let n = (of_char c :: nat) in if 65 \<le> n \<and> n \<le> 90 then char_of (n + 32) else c)"

definition lower :: "string \<Rightarrow> string" where
  "lower text = map lower_char text"

fun startswith :: "string \<Rightarrow> string \<Rightarrow> bool" where
  "startswith cs [] = True"
| "startswith [] (p # ps) = False"
| "startswith (c # cs) (p # ps) = (c = p \<and> startswith cs ps)"

text \<open>\<^verbatim>\<open>sub in text\<close> for two strings.\<close>

fun str_in :: "string \<Rightarrow> string \<Rightarrow> bool" where
  "str_in sub [] = (sub = [])"
| "str_in sub (c # cs) = (startswith (c # cs) sub \<or> str_in sub cs)"

section \<open>The functions of the application\<close>

text \<open>\<^verbatim>\<open>client.responses.create(...)\<close>: the gateway answers, and the call is on record.\<close>

definition call :: "world \<Rightarrow> request \<Rightarrow> state \<Rightarrow> (error + response) \<times> state" where
  "call w req s =
     (case create w (calls s) req of
        None \<Rightarrow> (Inl GatewayError, s\<lparr>calls := calls s @ [req]\<rparr>)
      | Some r \<Rightarrow> (Inr r, s\<lparr>calls := calls s @ [req]\<rparr>))"

text \<open>\<^verbatim>\<open>r.output[i].content[0].text\<close>\<close>

definition output_text :: "response \<Rightarrow> nat \<Rightarrow> error + string" where
  "output_text r i =
     (case py_index r i of
        Inl e \<Rightarrow> Inl e
      | Inr slot \<Rightarrow> py_index (content slot) 0)"

definition get_goal_and_queries ::
  "world \<Rightarrow> string list \<Rightarrow> string list \<Rightarrow> string \<Rightarrow> state \<Rightarrow> (error + json \<times> json) \<times> state" where
  "get_goal_and_queries w qs as t s =
     (case call w (PlanReq qs as t) s of
        (Inl e, s1) \<Rightarrow> (Inl e, s1)
      | (Inr goal_and_queries, s1) \<Rightarrow>
          (case output_text goal_and_queries 0 of
             Inl e \<Rightarrow> (Inl e, s1)
           | Inr text \<Rightarrow>
               (case loads w text of
                  None \<Rightarrow> (Inl JSONDecodeError, s1)
                | Some plan \<Rightarrow>
                    (case py_getitem plan ''goal'' of
                       Inl e \<Rightarrow> (Inl e, s1)
                     | Inr g \<Rightarrow>
                         (case py_getitem plan ''queries'' of
                            Inl e \<Rightarrow> (Inl e, s1)
                          | Inr q \<Rightarrow> (Inr (g, q), s1))))))"

text \<open>
  The dict literal evaluates \<^verbatim>\<open>web_search.output[1].id\<close> first and
  \<^verbatim>\<open>web_search.output[1].content[0].text\<close> second; both raise \<open>IndexError\<close> when
  the response has no second item.
\<close>

definition run_search :: "world \<Rightarrow> json \<Rightarrow> state \<Rightarrow> (error + evidence_item) \<times> state" where
  "run_search w q s =
     (case call w (SearchReq q) s of
        (Inl e, s1) \<Rightarrow> (Inl e, s1)
      | (Inr web_search, s1) \<Rightarrow>
          (case py_index web_search 1 of
             Inl e \<Rightarrow> (Inl e, s1)
           | Inr slot \<Rightarrow>
               (case output_text web_search 1 of
                  Inl e \<Rightarrow> (Inl e, s1)
                | Inr text \<Rightarrow>
                    (Inr \<lparr>query = q, resp_id = item_id slot, research_output = text\<rparr>, s1))))"

definition evaluate ::
  "world \<Rightarrow> evidence_item list \<Rightarrow> json \<Rightarrow> state \<Rightarrow> (error + bool) \<times> state" where
  "evaluate w coll g s =
     (case call w (EvalReq coll g) s of
        (Inl e, s1) \<Rightarrow> (Inl e, s1)
      | (Inr review, s1) \<Rightarrow>
          (case output_text review 0 of
             Inl e \<Rightarrow> (Inl e, s1)
           | Inr text \<Rightarrow> (Inr (str_in ''yes'' (lower text)), s1)))"

definition get_more_queries ::
  "world \<Rightarrow> evidence_item list \<Rightarrow> json \<Rightarrow> string option \<Rightarrow> state \<Rightarrow> (error + json) \<times> state" where
  "get_more_queries w coll g prev_id s =
     (case call w (ExpandReq coll g prev_id) s of
        (Inl e, s1) \<Rightarrow> (Inl e, s1)
      | (Inr more_searches, s1) \<Rightarrow>
          (case output_text more_searches 0 of
             Inl e \<Rightarrow> (Inl e, s1)
           | Inr text \<Rightarrow>
               if text = [] then (Inl StopEmptyResponse, s1)
               else (case loads w text of
                       None \<Rightarrow> (Inl (StopInvalidJSON text), s1)
                     | Some v \<Rightarrow> (Inr v, s1))))"

section \<open>The research step\<close>

text \<open>
  \<^verbatim>\<open>for q in queries: collected.append(run_search(q))\<close>, on the items the iteration
  visits. A search that raises ends the pass before its \<^verbatim>\<open>append\<close>.
\<close>

fun search_items :: "world \<Rightarrow> json list \<Rightarrow> state \<Rightarrow> (error + unit) \<times> state" where
  "search_items w [] s = (Inr (), s)"
| "search_items w (q # qs) s =
     (case run_search w q s of
        (Inl e, s1) \<Rightarrow> (Inl e, s1)
      | (Inr item, s1) \<Rightarrow> search_items w qs (s1\<lparr>collected := collected s1 @ [item]\<rparr>))"

definition search_pass :: "world \<Rightarrow> json \<Rightarrow> state \<Rightarrow> (error + unit) \<times> state" where
  "search_pass w qv s =
     (case py_iter qv of
        Inl e \<Rightarrow> (Inl e, s)
      | Inr qs \<Rightarrow> search_items w qs s)"

text \<open>
  How the loop \<^verbatim>\<open>for _ in itertools.count()\<close> stands after some iterations: left by
  \<^verbatim>\<open>break\<close> (with the value of \<^verbatim>\<open>_\<close> in that iteration), left by an exception, or
  still running (with the next value of \<^verbatim>\<open>_\<close> and the current value of the local name
  \<^verbatim>\<open>queries\<close>).
\<close>

datatype loop_exit =
    Break nat
  | Raise error
  | Running nat json

text \<open>
  The loop has no bound of its own, so the model runs at most \<open>n\<close> iterations of it:
  \<open>research_loop n w i qv g s\<close> starts with \<^verbatim>\<open>_\<close> = \<open>i\<close>, \<^verbatim>\<open>queries\<close> = \<open>qv\<close>,
  \<^verbatim>\<open>goal\<close> = \<open>g\<close>. One iteration is one search pass, one evaluation and, unless the
  loop is left, one call of \<^verbatim>\<open>get_more_queries\<close> with \<^verbatim>\<open>None\<close> as its third argument.
\<close>

fun research_loop ::
  "nat \<Rightarrow> world \<Rightarrow> nat \<Rightarrow> json \<Rightarrow> json \<Rightarrow> state \<Rightarrow> loop_exit \<times> state" where
  "research_loop 0 w i qv g s = (Running i qv, s)"
| "research_loop (Suc n) w i qv g s =
     (case search_pass w qv s of
        (Inl e, s1) \<Rightarrow> (Raise e, s1)
      | (Inr u, s1) \<Rightarrow>
          (case evaluate w (collected s1) g s1 of
             (Inl e, s2) \<Rightarrow> (Raise e, s2)
           | (Inr True, s2) \<Rightarrow> (Break i, s2)
           | (Inr False, s2) \<Rightarrow>
               (case get_more_queries w (collected s2) g None s2 of
                  (Inl e, s3) \<Rightarrow> (Raise e, s3)
                | (Inr qv', s3) \<Rightarrow> research_loop n w (Suc i) qv' g s3)))"

text \<open>
  The branch \<^verbatim>\<open>st.session_state.step == 3\<close>: the three local names are read from the
  session, the loop runs, and after a \<^verbatim>\<open>break\<close> the session gets \<^verbatim>\<open>collected\<close> (the same
  list object again) and \<^verbatim>\<open>step = 4\<close> before the rerun.
\<close>

definition research_step :: "nat \<Rightarrow> world \<Rightarrow> state \<Rightarrow> loop_exit \<times> state" where
  "research_step n w s =
     (case research_loop n w 0 (queries s) (goal s) s of
        (Break i, s') \<Rightarrow> (Break i, s'\<lparr>collected := collected s', step := 4\<rparr>)
      | (r, s') \<Rightarrow> (r, s'))"

section \<open>Reading the record of calls\<close>

fun is_search :: "request \<Rightarrow> bool" where
  "is_search (SearchReq q) = True"
| "is_search _ = False"

fun is_eval :: "request \<Rightarrow> bool" where
  "is_eval (EvalReq c g) = True"
| "is_eval _ = False"

fun is_expand :: "request \<Rightarrow> bool" where
  "is_expand (ExpandReq c g p) = True"
| "is_expand _ = False"

definition count_searches :: "request list \<Rightarrow> nat" where
  "count_searches cs = length (filter is_search cs)"

definition count_evals :: "request list \<Rightarrow> nat" where
  "count_evals cs = length (filter is_eval cs)"

definition count_expands :: "request list \<Rightarrow> nat" where
  "count_expands cs = length (filter is_expand cs)"

text \<open>The goal an evaluation or expansion request was built from is \<open>g\<close>.\<close>

fun carries_goal :: "json \<Rightarrow> request \<Rightarrow> bool" where
  "carries_goal g (EvalReq c g') = (g' = g)"
| "carries_goal g (ExpandReq c g' p) = (g' = g)"
| "carries_goal g _ = True"

text \<open>An expansion request was made with \<^verbatim>\<open>previous_response_id=None\<close>.\<close>

fun no_continuation :: "request \<Rightarrow> bool" where
  "no_continuation (ExpandReq c g p) = (p = None)"
| "no_continuation _ = True"

section \<open>One iteration of the loop, described by what it does\<close>

text \<open>
  \<open>searched w s qs items\<close>: searching the queries \<open>qs\<close> one after the other from the state
  \<open>s\<close> succeeds, and \<open>items\<close> are the results in the same order. Each query is handed to
  \<^verbatim>\<open>run_search\<close> once, in the state in which the results of the queries before it have been
  appended and their calls recorded, and its item is what that call returned.
\<close>

fun searched :: "world \<Rightarrow> state \<Rightarrow> json list \<Rightarrow> evidence_item list \<Rightarrow> bool" where
  "searched w s [] items = (items = [])"
| "searched w s (q # qs) items =
     (case items of
        [] \<Rightarrow> False
      | item # rest \<Rightarrow>
          fst (run_search w q s) = Inr item
        \<and> searched w (s\<lparr>collected := collected s @ [item], calls := calls s @ [SearchReq q]\<rparr>) qs rest)"

text \<open>The state after a completed pass over \<open>qs\<close> that found \<open>items\<close>.\<close>

definition pass_state :: "state \<Rightarrow> json list \<Rightarrow> evidence_item list \<Rightarrow> state" where
  "pass_state s qs items =
     s\<lparr>collected := collected s @ items, calls := calls s @ map SearchReq qs\<rparr>"

text \<open>
  The two ways through one iteration that do not raise, as the transitions
  SEARCHING, EVALUATING and EXPANDING describe them. A pair is the value of
  \<^verbatim>\<open>queries\<close> and the state at the start of an iteration. In a negative iteration one
  pass searches every query of the active set, the evaluator is asked once about the whole
  evidence and answers false, and the expander is asked once and its value is the active
  set of the next iteration. In a positive iteration the pass is followed by one
  evaluation that answers true, and by nothing else.
\<close>

definition negative_iteration :: "world \<Rightarrow> json \<Rightarrow> json \<times> state \<Rightarrow> json \<times> state \<Rightarrow> bool" where
  "negative_iteration w g a b =
     (\<exists>qs items.
        py_iter (fst a) = Inr qs
      \<and> searched w (snd a) qs items
      \<and> fst (evaluate w (collected (pass_state (snd a) qs items)) g (pass_state (snd a) qs items))
          = Inr False
      \<and> fst (get_more_queries w (collected (pass_state (snd a) qs items)) g None
             ((pass_state (snd a) qs items)
                \<lparr>calls := calls (pass_state (snd a) qs items)
                    @ [EvalReq (collected (pass_state (snd a) qs items)) g]\<rparr>))
          = Inr (fst b)
      \<and> snd b = (pass_state (snd a) qs items)
                  \<lparr>calls := calls (pass_state (snd a) qs items)
                      @ [EvalReq (collected (pass_state (snd a) qs items)) g,
                         ExpandReq (collected (pass_state (snd a) qs items)) g None]\<rparr>)"

definition positive_iteration :: "world \<Rightarrow> json \<Rightarrow> json \<times> state \<Rightarrow> state \<Rightarrow> bool" where
  "positive_iteration w g a s' =
     (\<exists>qs items.
        py_iter (fst a) = Inr qs
      \<and> searched w (snd a) qs items
      \<and> fst (evaluate w (collected (pass_state (snd a) qs items)) g (pass_state (snd a) qs items))
          = Inr True
      \<and> s' = (pass_state (snd a) qs items)
                \<lparr>calls := calls (pass_state (snd a) qs items)
                    @ [EvalReq (collected (pass_state (snd a) qs items)) g]\<rparr>)"

text \<open>
  A gateway on which no search and no expansion for the goal \<open>g\<close> fails, and a stub
  evaluator whose answer to the evaluation call number \<open>k\<close> (counted from \<open>0\<close> over all
  calls on record) is \<open>yes k\<close>.
\<close>

definition never_fails :: "world \<Rightarrow> json \<Rightarrow> bool" where
  "never_fails w g =
     ((\<forall>q s. \<not> isl (fst (run_search w q s)))
      \<and> (\<forall>c s. \<exists>v qs. fst (get_more_queries w c g None s) = Inr v \<and> py_iter v = Inr qs))"

definition stub_evaluator :: "world \<Rightarrow> json \<Rightarrow> (nat \<Rightarrow> bool) \<Rightarrow> bool" where
  "stub_evaluator w g yes =
     (\<forall>c s. fst (evaluate w c g s) = Inr (yes (count_evals (calls s))))"

section \<open>A stub gateway for the examples\<close>

text \<open>
  The stub answers a search with a tool call followed by a message, an evaluation with
  \<^verbatim>\<open>Yes.\<close> on the \<open>N\<close>-th evaluation call and \<^verbatim>\<open>No\<close> on every other, and a planning or
  expansion request with the given reply text. \<open>stub_loads\<close> gives the value of
  \<^verbatim>\<open>json.loads\<close> on the four JSON texts the examples use (\<open>more_reply\<close>, \<^verbatim>\<open>[]\<close>,
  \<open>null_plan_reply\<close> and \<open>object_reply\<close>); the only other text the examples pass to it,
  \<^verbatim>\<open>not json\<close>, is not JSON.
\<close>

definition more_reply :: string where
  \<open>more_reply = ''["grid storage tenders", "battery recycling"]''\<close>

definition null_plan_reply :: string where
  \<open>null_plan_reply = ''{"goal": null, "queries": null}''\<close>

definition object_reply :: string where
  \<open>object_reply = ''{"a": 1}''\<close>

definition stub_loads :: "string \<Rightarrow> json option" where
  "stub_loads text =
     (if text = more_reply
        then Some (JArr [JStr ''grid storage tenders'', JStr ''battery recycling''])
      else if text = ''[]'' then Some (JArr [])
      else if text = null_plan_reply
        then Some (JObj [(''goal'', JNull), (''queries'', JNull)])
      else if text = object_reply then Some (JObj [(''a'', JNum ''1'')])
      else None)"

definition stub_create :: "nat \<Rightarrow> string \<Rightarrow> request list \<Rightarrow> request \<Rightarrow> response option" where
  "stub_create N reply h req =
     (case req of
        PlanReq qs as t \<Rightarrow> Some [\<lparr>item_id = ''msg_plan'', content = [reply]\<rparr>]
      | SearchReq q \<Rightarrow>
          Some [\<lparr>item_id = ''ws_call'', content = []\<rparr>,
                \<lparr>item_id = ''msg_found'', content = [''finding'']\<rparr>]
      | EvalReq c g \<Rightarrow>
          Some [\<lparr>item_id = ''msg_review'',
                 content = [if Suc (count_evals h) = N then ''Yes.'' else ''No'']\<rparr>]
      | ExpandReq c g p \<Rightarrow> Some [\<lparr>item_id = ''msg_more'', content = [reply]\<rparr>])"

definition stub_world :: "nat \<Rightarrow> string \<Rightarrow> world" where
  "stub_world N reply = \<lparr>create = stub_create N reply, loads = stub_loads\<rparr>"

text \<open>
  The session as the script initialises it, and the session when the research step
  starts with the plan of the solar battery scenario.
\<close>

definition fresh :: state where
  "fresh = \<lparr>step = 0, topic = [], questions = [], answers = [], goal = JStr [],
            queries = JArr [], collected = [], report = [], calls = []\<rparr>"

definition plan_queries :: "json list" where
  "plan_queries =
     [JStr ''solar battery 2024'', JStr ''grid storage costs'',
      JStr ''battery chemistry advances'', JStr ''storage subsidies'',
      JStr ''market forecast 2025'']"

definition planned :: state where
  "planned =
     \<lparr>step = 3, topic = ''solar battery storage'', questions = [], answers = [],
      goal = JStr ''Assess current solar battery storage technology trends'',
      queries = JArr plan_queries, collected = [], report = [], calls = []\<rparr>"

section \<open>What a call leaves behind\<close>

text \<open>
  Each function of the application changes the state in one way only: its gateway call
  is added to the record.
\<close>

lemma snd_call: "snd (call w req s) = s\<lparr>calls := calls s @ [req]\<rparr>"
  by (simp add: call_def split: option.splits)

lemma snd_run_search: "snd (run_search w q s) = s\<lparr>calls := calls s @ [SearchReq q]\<rparr>"
  by (simp add: run_search_def call_def split: sum.splits option.splits)

lemma snd_evaluate: "snd (evaluate w c g s) = s\<lparr>calls := calls s @ [EvalReq c g]\<rparr>"
  by (simp add: evaluate_def call_def split: sum.splits option.splits)

lemma snd_get_more_queries:
  "snd (get_more_queries w c g p s) = s\<lparr>calls := calls s @ [ExpandReq c g p]\<rparr>"
  by (simp add: get_more_queries_def call_def split: sum.splits option.splits)

lemma snd_get_goal_and_queries:
  "snd (get_goal_and_queries w qs as t s) = s\<lparr>calls := calls s @ [PlanReq qs as t]\<rparr>"
  by (simp add: get_goal_and_queries_def call_def split: sum.splits option.splits)

lemma search_items_shape:
  "\<exists>items m. length items \<le> m \<and> m \<le> length qs
     \<and> snd (search_items w qs s)
         = s\<lparr>collected := collected s @ items, calls := calls s @ map SearchReq (take m qs)\<rparr>
     \<and> map query items = take (length items) qs
     \<and> (if isl (fst (search_items w qs s)) then length items < m else length items = length qs \<and> m = length qs)"
proof (induction qs arbitrary: s)
  case Nil
  show ?case by simp
next
  case (Cons q qs)
  show ?case
  proof (cases "run_search w q s")
    case (Pair r s1)
    have s1: "s1 = s\<lparr>calls := calls s @ [SearchReq q]\<rparr>"
      using snd_run_search [of w q s] Pair by simp
    show ?thesis
    proof (cases r)
      case (Inl e)
      have "snd (search_items w (q # qs) s) = s\<lparr>collected := collected s @ [], calls := calls s @ map SearchReq (take 1 (q # qs))\<rparr>"
        using Pair Inl s1 by simp
      moreover have "isl (fst (search_items w (q # qs) s))" using Pair Inl by simp
      ultimately show ?thesis
        by (intro exI [of _ "[]"] exI [of _ 1]) simp
    next
      case (Inr item)
      define s2 where "s2 = s1\<lparr>collected := collected s1 @ [item]\<rparr>"
      have step: "search_items w (q # qs) s = search_items w qs s2"
        using Pair Inr by (simp add: s2_def)
      from Cons.IH [of s2] obtain items m where
        IH: "length items \<le> m" "m \<le> length qs"
          "snd (search_items w qs s2)
             = s2\<lparr>collected := collected s2 @ items, calls := calls s2 @ map SearchReq (take m qs)\<rparr>"
          "map query items = take (length items) qs"
          "if isl (fst (search_items w qs s2)) then length items < m else length items = length qs \<and> m = length qs"
        by blast
      have q: "query item = q"
        using Pair Inr by (auto simp: run_search_def split: sum.splits prod.splits)
      show ?thesis
        apply (rule exI [of _ "item # items"], rule exI [of _ "Suc m"])
        using IH q unfolding step s2_def s1 by simp
    qed
  qed
qed


lemma count_evals_append [simp]: "count_evals (xs @ ys) = count_evals xs + count_evals ys"
  by (simp add: count_evals_def)

lemma count_expands_append [simp]: "count_expands (xs @ ys) = count_expands xs + count_expands ys"
  by (simp add: count_expands_def)

lemma count_evals_searches [simp]: "count_evals (map SearchReq qs) = 0"
  by (induction qs) (simp_all add: count_evals_def)

lemma count_expands_searches [simp]: "count_expands (map SearchReq qs) = 0"
  by (induction qs) (simp_all add: count_expands_def)

lemma search_pass_ok:
  assumes searches: "\<And>q s. \<not> isl (fst (run_search w q s))"
    and iter: "py_iter qv = Inr qs"
  shows "\<exists>items. search_pass w qv s
           = (Inr (), s\<lparr>collected := collected s @ items, calls := calls s @ map SearchReq qs\<rparr>)
         \<and> map query items = qs"
proof -
  have no_fail: "\<not> isl (fst (search_items w qs s))" for s
  proof (induction qs arbitrary: s)
    case Nil
    show ?case by simp
  next
    case (Cons q qs)
    obtain r s1 where rs: "run_search w q s = (r, s1)" by (cases "run_search w q s")
    with searches [of q s] obtain item where "r = Inr item" by (cases r) auto
    with rs Cons.IH show ?case by simp
  qed
  from search_items_shape [of qs w s] obtain items m where
    sh: "snd (search_items w qs s)
          = s\<lparr>collected := collected s @ items, calls := calls s @ map SearchReq (take m qs)\<rparr>"
      "map query items = take (length items) qs"
      "length items = length qs \<and> m = length qs"
    using no_fail [of s] by auto
  have "fst (search_items w qs s) = Inr ()"
    using no_fail [of s] by (cases "fst (search_items w qs s)") auto
  with sh have "search_items w qs s
      = (Inr (), s\<lparr>collected := collected s @ items, calls := calls s @ map SearchReq qs\<rparr>)"
    by (cases "search_items w qs s") simp
  with sh iter show ?thesis by (auto simp: search_pass_def)
qed

lemma search_pass_shape:
  "\<exists>items cs. snd (search_pass w qv s) = s\<lparr>collected := collected s @ items, calls := calls s @ cs\<rparr>
     \<and> list_all is_search cs"
proof (cases "py_iter qv")
  case (Inl e)
  then have "snd (search_pass w qv s) = s\<lparr>collected := collected s @ [], calls := calls s @ []\<rparr>"
    by (simp add: search_pass_def)
  moreover have "list_all is_search []" by simp
  ultimately show ?thesis by blast
next
  case (Inr qs)
  from search_items_shape [of qs w s] obtain items m where
    "snd (search_items w qs s)
       = s\<lparr>collected := collected s @ items, calls := calls s @ map SearchReq (take m qs)\<rparr>"
    by blast
  moreover have "list_all is_search (map SearchReq (take m qs))"
    by (simp add: list_all_iff)
  ultimately show ?thesis using Inr by (auto simp: search_pass_def)
qed

lemma research_loop_shape:
  "\<exists>items cs. snd (research_loop n w i qv g s)
       = s\<lparr>collected := collected s @ items, calls := calls s @ cs\<rparr>
     \<and> list_all (carries_goal g) cs \<and> list_all no_continuation cs"
proof (induction n arbitrary: i qv s)
  case 0
  have "snd (research_loop 0 w i qv g s) = s\<lparr>collected := collected s @ [], calls := calls s @ []\<rparr>"
    by simp
  moreover have "list_all (carries_goal g) [] \<and> list_all no_continuation []" by simp
  ultimately show ?case by blast
next
  case (Suc n)
  from search_pass_shape [of w qv s] obtain items1 cs1 where
    p: "snd (search_pass w qv s) = s\<lparr>collected := collected s @ items1, calls := calls s @ cs1\<rparr>"
       "list_all is_search cs1" by blast
  define s1 where "s1 = s\<lparr>collected := collected s @ items1, calls := calls s @ cs1\<rparr>"
  define s2 where "s2 = s1\<lparr>calls := calls s1 @ [EvalReq (collected s1) g]\<rparr>"
  define s3 where "s3 = s2\<lparr>calls := calls s2 @ [ExpandReq (collected s2) g None]\<rparr>"
  have ok1: "list_all (carries_goal g) cs1 \<and> list_all no_continuation cs1"
    using p(2) by (induction cs1) (auto elim: is_search.elims)
  have f1: "s1 = s\<lparr>collected := collected s @ items1, calls := calls s @ cs1\<rparr>"
    by (simp add: s1_def)
  have f2: "s2 = s\<lparr>collected := collected s @ items1, calls := calls s @ (cs1 @ [EvalReq (collected s1) g])\<rparr>"
    by (simp add: s2_def s1_def)
  have f3: "s3 = s\<lparr>collected := collected s @ items1,
                  calls := calls s @ (cs1 @ [EvalReq (collected s1) g, ExpandReq (collected s2) g None])\<rparr>"
    by (simp add: s3_def s2_def s1_def)
  obtain r1 where r1: "search_pass w qv s = (r1, s1)"
    using p(1) by (cases "search_pass w qv s") (simp add: s1_def)
  obtain r2 where r2: "evaluate w (collected s1) g s1 = (r2, s2)"
    using snd_evaluate [of w "collected s1" g s1]
    by (cases "evaluate w (collected s1) g s1") (simp add: s2_def)
  obtain r3 where r3: "get_more_queries w (collected s2) g None s2 = (r3, s3)"
    using snd_get_more_queries [of w "collected s2" g None s2]
    by (cases "get_more_queries w (collected s2) g None s2") (simp add: s3_def)
  have "snd (research_loop (Suc n) w i qv g s) = s1
      \<or> snd (research_loop (Suc n) w i qv g s) = s2
      \<or> snd (research_loop (Suc n) w i qv g s) = s3
      \<or> (\<exists>qv'. research_loop (Suc n) w i qv g s = research_loop n w (Suc i) qv' g s3)"
    by (cases r1; cases r2; cases r3) (auto simp: r1 r2 r3 split: bool.splits)
  then consider (a) "snd (research_loop (Suc n) w i qv g s) = s1"
    | (b) "snd (research_loop (Suc n) w i qv g s) = s2"
    | (c) "snd (research_loop (Suc n) w i qv g s) = s3"
    | (d) qv' where "research_loop (Suc n) w i qv g s = research_loop n w (Suc i) qv' g s3"
    by blast
  then show ?case
  proof cases
    case a
    with f1 ok1 show ?thesis by blast
  next
    case b
    have "list_all (carries_goal g) (cs1 @ [EvalReq (collected s1) g])
        \<and> list_all no_continuation (cs1 @ [EvalReq (collected s1) g])"
      using ok1 by simp
    with b f2 show ?thesis by blast
  next
    case c
    have "list_all (carries_goal g) (cs1 @ [EvalReq (collected s1) g, ExpandReq (collected s2) g None])
        \<and> list_all no_continuation (cs1 @ [EvalReq (collected s1) g, ExpandReq (collected s2) g None])"
      using ok1 by simp
    with c f3 show ?thesis by blast
  next
    case d
    from Suc.IH [of "Suc i" qv' s3] obtain items cs where
      IH: "snd (research_loop n w (Suc i) qv' g s3)
             = s3\<lparr>collected := collected s3 @ items, calls := calls s3 @ cs\<rparr>"
          "list_all (carries_goal g) cs" "list_all no_continuation cs"
      by blast
    let ?cs = "(cs1 @ [EvalReq (collected s1) g, ExpandReq (collected s2) g None]) @ cs"
    have "snd (research_loop (Suc n) w i qv g s)
        = s\<lparr>collected := collected s @ (items1 @ items), calls := calls s @ ?cs\<rparr>"
      unfolding d IH(1) by (simp add: f3)
    moreover have "list_all (carries_goal g) ?cs \<and> list_all no_continuation ?cs"
      using ok1 IH(2,3) by simp
    ultimately show ?thesis by blast
  qed
qed





lemma research_step_shape:
  "\<exists>items cs st. snd (research_step n w s)
       = s\<lparr>step := st, collected := collected s @ items, calls := calls s @ cs\<rparr>
     \<and> list_all (carries_goal (goal s)) cs \<and> list_all no_continuation cs"
proof -
  from research_loop_shape [of n w 0 "queries s" "goal s" s] obtain items cs where
    sh: "snd (research_loop n w 0 (queries s) (goal s) s)
           = s\<lparr>collected := collected s @ items, calls := calls s @ cs\<rparr>"
        "list_all (carries_goal (goal s)) cs" "list_all no_continuation cs"
    by blast
  obtain r s' where rs: "research_loop n w 0 (queries s) (goal s) s = (r, s')"
    by (cases "research_loop n w 0 (queries s) (goal s) s")
  with sh(1) have s': "s' = s\<lparr>collected := collected s @ items, calls := calls s @ cs\<rparr>" by simp
  have "snd (research_step n w s) = s\<lparr>step := 4, collected := collected s @ items, calls := calls s @ cs\<rparr>
      \<or> snd (research_step n w s) = s\<lparr>step := step s, collected := collected s @ items, calls := calls s @ cs\<rparr>"
    using rs by (cases r) (simp_all add: research_step_def s')
  with sh(2,3) show ?thesis by blast
qed

lemma startswith_iff: "startswith cs ps \<longleftrightarrow> (\<exists>post. cs = ps @ post)"
  by (induction cs ps rule: startswith.induct) auto

lemma str_in_iff: "str_in sub cs \<longleftrightarrow> (\<exists>pre post. cs = pre @ sub @ post)"
proof (induction cs)
  case Nil
  show ?case by auto
next
  case (Cons c cs)
  show ?case
  proof
    assume "str_in sub (c # cs)"
    then consider "startswith (c # cs) sub" | "str_in sub cs" by auto
    then show "\<exists>pre post. c # cs = pre @ sub @ post"
    proof cases
      case 1
      then obtain post where "c # cs = [] @ sub @ post" by (auto simp: startswith_iff)
      then show ?thesis by blast
    next
      case 2
      with Cons.IH obtain pre post where "cs = pre @ sub @ post" by blast
      then have "c # cs = (c # pre) @ sub @ post" by simp
      then show ?thesis by blast
    qed
  next
    assume "\<exists>pre post. c # cs = pre @ sub @ post"
    then obtain pre post where eq: "c # cs = pre @ sub @ post" by blast
    show "str_in sub (c # cs)"
    proof (cases pre)
      case Nil
      with eq have "startswith (c # cs) sub" by (auto simp: startswith_iff)
      then show ?thesis by simp
    next
      case (Cons p pre')
      with eq have "cs = pre' @ sub @ post" by simp
      with Cons.IH have "str_in sub cs" by blast
      then show ?thesis by simp
    qed
  qed
qed

section \<open>The stub gateway satisfies the assumptions on a well-behaved gateway\<close>

lemma lower_Yes: "str_in ''yes'' (lower ''Yes.'')"
  by code_simp

lemma lower_No: "\<not> str_in ''yes'' (lower ''No'')"
  by code_simp

lemma stub_searches: "\<not> isl (fst (run_search (stub_world N reply) q s))"
  by (simp add: run_search_def call_def stub_world_def stub_create_def output_text_def py_index_def)

lemma stub_verdict:
  "fst (evaluate (stub_world N reply) c g s) = Inr (Suc (count_evals (calls s)) = N)"
  by (simp add: evaluate_def call_def stub_world_def stub_create_def output_text_def py_index_def
      lower_Yes lower_No)

lemma stub_expands:
  \<open>\<exists>v qs. fst (get_more_queries (stub_world N more_reply) c g None s) = Inr v
      \<and> py_iter v = Inr qs\<close>
  by (simp add: get_more_queries_def call_def stub_world_def stub_create_def output_text_def
      py_index_def stub_loads_def more_reply_def)

lemma planned_iter: "py_iter (queries planned) = Inr plan_queries"
  by (simp add: planned_def)

lemma planned_calls: "calls planned = []"
  by (simp add: planned_def)

lemma planned_collected: "collected planned = []"
  by (simp add: planned_def)

section \<open>The loop, iteration by iteration\<close>

text \<open>
  A completed pass is a pass in the sense of \<open>searched\<close>, and every way through one
  iteration of \<open>research_loop\<close> that does not raise is a negative or a positive iteration.
\<close>

lemma searched_length: "searched w s qs items \<Longrightarrow> length items = length qs \<and> map query items = qs"
proof (induction qs arbitrary: s items)
  case Nil
  then show ?case by simp
next
  case (Cons q qs)
  then obtain item rest where items: "items = item # rest" by (cases items) auto
  with Cons.prems have r: "fst (run_search w q s) = Inr item"
    and rest: "searched w (s\<lparr>collected := collected s @ [item], calls := calls s @ [SearchReq q]\<rparr>) qs rest"
    by auto
  have "query item = q"
    using r by (auto simp: run_search_def split: sum.splits prod.splits)
  with Cons.IH [OF rest] items show ?case by simp
qed

lemma search_items_iff:
  "search_items w qs s = (Inr u, s1) \<longleftrightarrow> (\<exists>items. searched w s qs items \<and> s1 = pass_state s qs items)"
proof (induction qs arbitrary: s s1)
  case Nil
  show ?case by (auto simp: pass_state_def)
next
  case (Cons q qs)
  obtain r s' where rs: "run_search w q s = (r, s')" by (cases "run_search w q s")
  have s': "s' = s\<lparr>calls := calls s @ [SearchReq q]\<rparr>"
    using snd_run_search [of w q s] rs by simp
  show ?case
  proof (cases r)
    case (Inl e)
    have "\<not> searched w s (q # qs) items" for items
      using rs Inl by (cases items) auto
    then show ?thesis using rs Inl by auto
  next
    case (Inr item)
    define s2 where "s2 = s\<lparr>collected := collected s @ [item], calls := calls s @ [SearchReq q]\<rparr>"
    have eq: "s'\<lparr>collected := collected s' @ [item]\<rparr> = s2"
      by (simp add: s' s2_def)
    have step: "search_items w (q # qs) s = search_items w qs s2"
      using rs Inr eq by simp
    have ps: "pass_state s2 qs rest = pass_state s (q # qs) (item # rest)" for rest
      by (simp add: pass_state_def s2_def)
    show ?thesis
    proof
      assume "search_items w (q # qs) s = (Inr u, s1)"
      then have "search_items w qs s2 = (Inr u, s1)" by (simp only: step)
      with Cons.IH [of s2 s1] obtain rest where
        rest: "searched w s2 qs rest" "s1 = pass_state s2 qs rest" by blast
      have "searched w s (q # qs) (item # rest)"
        using rs Inr rest(1) by (simp add: s2_def)
      with rest(2) ps show "\<exists>items. searched w s (q # qs) items \<and> s1 = pass_state s (q # qs) items"
        by blast
    next
      assume "\<exists>items. searched w s (q # qs) items \<and> s1 = pass_state s (q # qs) items"
      then obtain items where it: "searched w s (q # qs) items" "s1 = pass_state s (q # qs) items"
        by blast
      then obtain rest where items: "items = item # rest" and rest: "searched w s2 qs rest"
        using rs Inr by (cases items) (auto simp: s2_def)
      from it(2) items ps have "s1 = pass_state s2 qs rest" by simp
      with rest Cons.IH [of s2 s1] have "search_items w qs s2 = (Inr u, s1)" by blast
      then show "search_items w (q # qs) s = (Inr u, s1)" by (simp only: step)
    qed
  qed
qed

lemma searched_unique:
  "searched w s qs items \<Longrightarrow> searched w s qs items' \<Longrightarrow> items' = items"
proof (induction qs arbitrary: s items items')
  case Nil
  then show ?case by simp
next
  case (Cons q qs)
  from Cons.prems obtain item rest item' rest' where
    "items = item # rest" "items' = item' # rest'"
    by (cases items; cases items') auto
  with Cons.prems Cons.IH show ?case by auto
qed


lemma search_pass_iff:
  "search_pass w qv s = (Inr u, s1)
     \<longleftrightarrow> (\<exists>qs items. py_iter qv = Inr qs \<and> searched w s qs items \<and> s1 = pass_state s qs items)"
  by (cases "py_iter qv") (auto simp: search_pass_def search_items_iff)

lemma evaluate_result:
  "\<exists>r. evaluate w c g s = (r, s\<lparr>calls := calls s @ [EvalReq c g]\<rparr>)"
  using snd_evaluate [of w c g s] by (cases "evaluate w c g s") simp

lemma get_more_queries_result:
  "\<exists>r. get_more_queries w c g p s = (r, s\<lparr>calls := calls s @ [ExpandReq c g p]\<rparr>)"
  using snd_get_more_queries [of w c g p s] by (cases "get_more_queries w c g p s") simp

lemma loop_negative:
  assumes "negative_iteration w g (qv, s) (qv1, s3)"
  shows "research_loop (Suc n) w i qv g s = research_loop n w (Suc i) qv1 g s3"
proof -
  from assms obtain qs items where
    it: "py_iter qv = Inr qs" "searched w s qs items"
    and ev: "fst (evaluate w (collected (pass_state s qs items)) g (pass_state s qs items)) = Inr False"
    and ex: "fst (get_more_queries w (collected (pass_state s qs items)) g None
             ((pass_state s qs items)\<lparr>calls := calls (pass_state s qs items)
                    @ [EvalReq (collected (pass_state s qs items)) g]\<rparr>)) = Inr qv1"
    and s3: "s3 = (pass_state s qs items)\<lparr>calls := calls (pass_state s qs items)
                      @ [EvalReq (collected (pass_state s qs items)) g,
                         ExpandReq (collected (pass_state s qs items)) g None]\<rparr>"
    unfolding negative_iteration_def by auto
  define s1 where "s1 = pass_state s qs items"
  define s2 where "s2 = s1\<lparr>calls := calls s1 @ [EvalReq (collected s1) g]\<rparr>"
  have p: "search_pass w qv s = (Inr (), s1)"
    using it by (auto simp: search_pass_iff s1_def)
  obtain r2 where e0: "evaluate w (collected s1) g s1 = (r2, s2)"
    using evaluate_result [of w "collected s1" g s1] by (auto simp: s2_def)
  with ev have e: "evaluate w (collected s1) g s1 = (Inr False, s2)"
    by (simp add: s1_def)
  have c2: "collected s2 = collected s1" by (simp add: s2_def)
  have s3': "s3 = s2\<lparr>calls := calls s2 @ [ExpandReq (collected s2) g None]\<rparr>"
    by (simp add: s3 s2_def s1_def)
  obtain r3 where x0: "get_more_queries w (collected s2) g None s2 = (r3, s3)"
    using get_more_queries_result [of w "collected s2" g None s2] by (auto simp: s3')
  with ex have x: "get_more_queries w (collected s2) g None s2 = (Inr qv1, s3)"
    by (simp add: c2 s2_def s1_def)
  show ?thesis using p e x by simp
qed

lemma loop_positive:
  assumes "positive_iteration w g (qv, s) s'"
  shows "research_loop (Suc n) w i qv g s = (Break i, s')"
proof -
  from assms obtain qs items where
    it: "py_iter qv = Inr qs" "searched w s qs items"
    and ev: "fst (evaluate w (collected (pass_state s qs items)) g (pass_state s qs items)) = Inr True"
    and s': "s' = (pass_state s qs items)\<lparr>calls := calls (pass_state s qs items)
                      @ [EvalReq (collected (pass_state s qs items)) g]\<rparr>"
    unfolding positive_iteration_def by auto
  define s1 where "s1 = pass_state s qs items"
  have p: "search_pass w qv s = (Inr (), s1)"
    using it by (auto simp: search_pass_iff s1_def)
  obtain r2 where e0: "evaluate w (collected s1) g s1 = (r2, s')"
    using evaluate_result [of w "collected s1" g s1] by (auto simp: s' s1_def)
  with ev have e: "evaluate w (collected s1) g s1 = (Inr True, s')"
    by (simp add: s1_def)
  show ?thesis using p e by simp
qed

lemma loop_cases:
  "(\<exists>e s1. research_loop (Suc n) w i qv g s = (Raise e, s1))
   \<or> (\<exists>s1. positive_iteration w g (qv, s) s1)
   \<or> (\<exists>qv1 s1. negative_iteration w g (qv, s) (qv1, s1))"
proof (cases "search_pass w qv s")
  case (Pair r s1)
  show ?thesis
  proof (cases r)
    case (Inl e)
    with Pair show ?thesis by simp
  next
    case (Inr u)
    with Pair obtain qs items where
      it: "py_iter qv = Inr qs" "searched w s qs items" "s1 = pass_state s qs items"
      by (auto simp: search_pass_iff)
    define s2 where "s2 = s1\<lparr>calls := calls s1 @ [EvalReq (collected s1) g]\<rparr>"
    define s3 where "s3 = s1\<lparr>calls := calls s1 @ [EvalReq (collected s1) g,
                         ExpandReq (collected s1) g None]\<rparr>"
    obtain r2 where e: "evaluate w (collected s1) g s1 = (r2, s2)"
      using evaluate_result [of w "collected s1" g s1] by (auto simp: s2_def)
    have c2: "collected s2 = collected s1" by (simp add: s2_def)
    obtain r3 where x: "get_more_queries w (collected s2) g None s2 = (r3, s3)"
      using get_more_queries_result [of w "collected s2" g None s2]
      by (auto simp: s2_def s3_def)
    show ?thesis
    proof (cases r2)
      case (Inl e')
      with Pair Inr e have "research_loop (Suc n) w i qv g s = (Raise e', s2)" by simp
      then show ?thesis by blast
    next
      case b: (Inr b)
      show ?thesis
      proof (cases b)
        case True
        have "positive_iteration w g (qv, s) s2"
          unfolding positive_iteration_def using it e b True by (auto simp: s2_def)
        then show ?thesis by blast
      next
        case False
        show ?thesis
        proof (cases r3)
          case (Inl e')
          have "research_loop (Suc n) w i qv g s = (Raise e', s3)"
            using Pair Inr e b False x Inl by simp
          then show ?thesis by blast
        next
          case (Inr qv1)
          have "negative_iteration w g (qv, s) (qv1, s3)"
            unfolding negative_iteration_def using it e b False x Inr
            by (auto simp: s2_def s3_def)
          then show ?thesis by blast
        qed
      qed
    qed
  qed
qed

lemma running_iff:
  "research_loop n w i qv g s = (Running j qv', s')
     \<longleftrightarrow> j = i + n \<and> (negative_iteration w g ^^ n) (qv, s) (qv', s')"
proof (induction n arbitrary: i qv s)
  case 0
  show ?case by auto
next
  case (Suc n)
  show ?case
  proof
    assume run: "research_loop (Suc n) w i qv g s = (Running j qv', s')"
    from loop_cases [of n w i qv g s] consider
        (raise) e s1 where "research_loop (Suc n) w i qv g s = (Raise e, s1)"
      | (pos) s1 where "positive_iteration w g (qv, s) s1"
      | (neg) qv1 s1 where "negative_iteration w g (qv, s) (qv1, s1)"
      by blast
    then show "j = i + Suc n \<and> (negative_iteration w g ^^ Suc n) (qv, s) (qv', s')"
    proof cases
      case raise
      with run show ?thesis by simp
    next
      case pos
      from loop_positive [OF pos, of n i] run show ?thesis by simp
    next
      case neg
      from loop_negative [OF neg, of n i] run
      have "research_loop n w (Suc i) qv1 g s1 = (Running j qv', s')" by simp
      with Suc.IH [of "Suc i" qv1 s1]
      have "j = Suc i + n" "(negative_iteration w g ^^ n) (qv1, s1) (qv', s')" by auto
      moreover from neg this(2)
      have "(negative_iteration w g ^^ Suc n) (qv, s) (qv', s')" by (rule relpowp_Suc_I2)
      ultimately show ?thesis by simp
    qed
  next
    assume "j = i + Suc n \<and> (negative_iteration w g ^^ Suc n) (qv, s) (qv', s')"
    then have j: "j = i + Suc n"
      and "(negative_iteration w g ^^ Suc n) (qv, s) (qv', s')" by auto
    then obtain c where c: "negative_iteration w g (qv, s) c"
      "(negative_iteration w g ^^ n) c (qv', s')"
      by (blast dest: relpowp_Suc_D2)
    obtain qv1 s1 where c1: "c = (qv1, s1)" by (cases c)
    from c(2) j Suc.IH [of "Suc i" qv1 s1]
    have "research_loop n w (Suc i) qv1 g s1 = (Running j qv', s')" by (simp add: c1)
    with loop_negative [OF c(1) [unfolded c1], of n i]
    show "research_loop (Suc n) w i qv g s = (Running j qv', s')" by simp
  qed
qed

lemma break_iff:
  "research_loop n w i qv g s = (Break j, s')
     \<longleftrightarrow> (\<exists>m qv0 s0. m < n \<and> j = i + m
            \<and> (negative_iteration w g ^^ m) (qv, s) (qv0, s0)
            \<and> positive_iteration w g (qv0, s0) s')"
proof (induction n arbitrary: i qv s)
  case 0
  show ?case by simp
next
  case (Suc n)
  show ?case
  proof
    assume brk: "research_loop (Suc n) w i qv g s = (Break j, s')"
    from loop_cases [of n w i qv g s] consider
        (raise) e s1 where "research_loop (Suc n) w i qv g s = (Raise e, s1)"
      | (pos) s1 where "positive_iteration w g (qv, s) s1"
      | (neg) qv1 s1 where "negative_iteration w g (qv, s) (qv1, s1)"
      by blast
    then show "\<exists>m qv0 s0. m < Suc n \<and> j = i + m
            \<and> (negative_iteration w g ^^ m) (qv, s) (qv0, s0)
            \<and> positive_iteration w g (qv0, s0) s'"
    proof cases
      case raise
      with brk show ?thesis by simp
    next
      case pos
      from loop_positive [OF pos, of n i] brk have "j = i" "s1 = s'" by simp_all
      with pos have "0 < Suc n \<and> j = i + 0
            \<and> (negative_iteration w g ^^ 0) (qv, s) (qv, s)
            \<and> positive_iteration w g (qv, s) s'" by simp
      then show ?thesis by blast
    next
      case neg
      from loop_negative [OF neg, of n i] brk
      have "research_loop n w (Suc i) qv1 g s1 = (Break j, s')" by simp
      with Suc.IH [of "Suc i" qv1 s1] obtain m qv0 s0 where
        m: "m < n" "j = Suc i + m" "(negative_iteration w g ^^ m) (qv1, s1) (qv0, s0)"
          "positive_iteration w g (qv0, s0) s'" by blast
      from neg m(3) have "(negative_iteration w g ^^ Suc m) (qv, s) (qv0, s0)"
        by (rule relpowp_Suc_I2)
      with m have "Suc m < Suc n \<and> j = i + Suc m
            \<and> (negative_iteration w g ^^ Suc m) (qv, s) (qv0, s0)
            \<and> positive_iteration w g (qv0, s0) s'" by simp
      then show ?thesis by blast
    qed
  next
    assume "\<exists>m qv0 s0. m < Suc n \<and> j = i + m
            \<and> (negative_iteration w g ^^ m) (qv, s) (qv0, s0)
            \<and> positive_iteration w g (qv0, s0) s'"
    then obtain m qv0 s0 where
      m: "m < Suc n" "j = i + m" "(negative_iteration w g ^^ m) (qv, s) (qv0, s0)"
        "positive_iteration w g (qv0, s0) s'" by blast
    show "research_loop (Suc n) w i qv g s = (Break j, s')"
    proof (cases m)
      case 0
      with m loop_positive [of w g qv s s' n i] show ?thesis by simp
    next
      case (Suc m')
      with m(3) obtain c where c: "negative_iteration w g (qv, s) c"
        "(negative_iteration w g ^^ m') c (qv0, s0)"
        by (blast dest: relpowp_Suc_D2)
      obtain qv1 s1 where c1: "c = (qv1, s1)" by (cases c)
      have "m' < n \<and> j = Suc i + m' \<and> (negative_iteration w g ^^ m') (qv1, s1) (qv0, s0)
            \<and> positive_iteration w g (qv0, s0) s'"
        using m c(2) Suc by (simp add: c1)
      with Suc.IH [of "Suc i" qv1 s1]
      have "research_loop n w (Suc i) qv1 g s1 = (Break j, s')" by blast
      with loop_negative [OF c(1) [unfolded c1], of n i] show ?thesis by simp
    qed
  qed
qed

lemma count_searches_append [simp]:
  "count_searches (xs @ ys) = count_searches xs + count_searches ys"
  by (simp add: count_searches_def)

lemma count_searches_searches [simp]: "count_searches (map SearchReq qs) = length qs"
  by (induction qs) (simp_all add: count_searches_def)

lemma negative_iteration_searches:
  assumes "negative_iteration w g a b"
  shows "\<exists>qs. py_iter (fst a) = Inr qs
           \<and> count_searches (calls (snd b)) = count_searches (calls (snd a)) + length qs"
  using assms unfolding negative_iteration_def
  by (auto simp: pass_state_def count_searches_def)

lemma positive_iteration_searches:
  assumes "positive_iteration w g a s'"
  shows "\<exists>qs. py_iter (fst a) = Inr qs
           \<and> count_searches (calls s') = count_searches (calls (snd a)) + length qs"
  using assms unfolding positive_iteration_def
  by (auto simp: pass_state_def count_searches_def)

lemma negative_iteration_counts:
  assumes "negative_iteration w g a b"
  shows "count_evals (calls (snd b)) = Suc (count_evals (calls (snd a)))
       \<and> count_expands (calls (snd b)) = Suc (count_expands (calls (snd a)))"
  using assms unfolding negative_iteration_def
  by (auto simp: pass_state_def count_evals_def count_expands_def)

lemma negative_iterations_counts:
  "(negative_iteration w g ^^ n) a b \<Longrightarrow>
     count_evals (calls (snd b)) = count_evals (calls (snd a)) + n
   \<and> count_expands (calls (snd b)) = count_expands (calls (snd a)) + n"
proof (induction n arbitrary: b)
  case 0
  then show ?case by simp
next
  case (Suc n)
  then obtain c where "(negative_iteration w g ^^ n) a c" "negative_iteration w g c b" by auto
  with Suc.IH [of c] negative_iteration_counts [of w g c b] show ?case by simp
qed

lemma positive_iteration_counts:
  assumes "positive_iteration w g a s'"
  shows "count_evals (calls s') = Suc (count_evals (calls (snd a)))
       \<and> count_expands (calls s') = count_expands (calls (snd a))
       \<and> last (calls s') = EvalReq (collected s') g"
  using assms unfolding positive_iteration_def
  by (auto simp: pass_state_def count_evals_def count_expands_def)

lemma search_items_fail:
  "search_items w qs s = (Inl e, s1) \<Longrightarrow>
     \<exists>k items. k < length qs \<and> searched w s (take k qs) items
       \<and> fst (run_search w (qs ! k) (pass_state s (take k qs) items)) = Inl e
       \<and> s1 = (pass_state s (take k qs) items)
                \<lparr>calls := calls (pass_state s (take k qs) items) @ [SearchReq (qs ! k)]\<rparr>"
proof (induction qs arbitrary: s)
  case Nil
  then show ?case by simp
next
  case (Cons q qs)
  obtain r s' where rs: "run_search w q s = (r, s')" by (cases "run_search w q s")
  have s': "s' = s\<lparr>calls := calls s @ [SearchReq q]\<rparr>"
    using snd_run_search [of w q s] rs by simp
  show ?case
  proof (cases r)
    case (Inl e')
    with Cons.prems rs have "e' = e" "s1 = s'" by simp_all
    then have "0 < length (q # qs) \<and> searched w s (take 0 (q # qs)) []
       \<and> fst (run_search w ((q # qs) ! 0) (pass_state s (take 0 (q # qs)) [])) = Inl e
       \<and> s1 = (pass_state s (take 0 (q # qs)) [])
                \<lparr>calls := calls (pass_state s (take 0 (q # qs)) []) @ [SearchReq ((q # qs) ! 0)]\<rparr>"
      using rs Inl s' by (simp add: pass_state_def)
    then show ?thesis by blast
  next
    case (Inr item)
    define s2 where "s2 = s\<lparr>collected := collected s @ [item], calls := calls s @ [SearchReq q]\<rparr>"
    have eq: "s'\<lparr>collected := collected s' @ [item]\<rparr> = s2"
      by (simp add: s' s2_def)
    have "search_items w (q # qs) s = search_items w qs s2"
      using rs Inr eq by simp
    with Cons.prems have "search_items w qs s2 = (Inl e, s1)" by simp
    from Cons.IH [OF this] obtain k items where
      k: "k < length qs" "searched w s2 (take k qs) items"
        "fst (run_search w (qs ! k) (pass_state s2 (take k qs) items)) = Inl e"
        "s1 = (pass_state s2 (take k qs) items)
                \<lparr>calls := calls (pass_state s2 (take k qs) items) @ [SearchReq (qs ! k)]\<rparr>"
      by blast
    have ps: "pass_state s2 (take k qs) items = pass_state s (take (Suc k) (q # qs)) (item # items)"
      by (simp add: pass_state_def s2_def)
    have "searched w s (take (Suc k) (q # qs)) (item # items)"
      using rs Inr k(2) by (simp add: s2_def)
    with k ps have "Suc k < length (q # qs)
       \<and> searched w s (take (Suc k) (q # qs)) (item # items)
       \<and> fst (run_search w ((q # qs) ! Suc k) (pass_state s (take (Suc k) (q # qs)) (item # items))) = Inl e
       \<and> s1 = (pass_state s (take (Suc k) (q # qs)) (item # items))
                \<lparr>calls := calls (pass_state s (take (Suc k) (q # qs)) (item # items))
                    @ [SearchReq ((q # qs) ! Suc k)]\<rparr>"
      by simp
    then show ?thesis by blast
  qed
qed

lemma stub_evaluator_run:
  fixes yes :: "nat \<Rightarrow> bool"
  assumes searches: "\<And>q s. \<not> isl (fst (run_search w q s))"
    and expands: "\<And>c s. \<exists>v qs. fst (get_more_queries w c g None s) = Inr v \<and> py_iter v = Inr qs"
    and evaluator: "\<And>c s. fst (evaluate w c g s) = Inr (yes (count_evals (calls s)))"
    and iter: "py_iter qv = Inr qs"
  shows "((\<forall>k<n. \<not> yes (count_evals (calls s) + k)) \<longrightarrow>
            (\<exists>qv' s'. research_loop n w i qv g s = (Running (i + n) qv', s')
               \<and> count_evals (calls s') = count_evals (calls s) + n
               \<and> count_expands (calls s') = count_expands (calls s) + n))
       \<and> ((\<forall>k<m. \<not> yes (count_evals (calls s) + k)) \<and> yes (count_evals (calls s) + m) \<and> m < n \<longrightarrow>
            (\<exists>s'. research_loop n w i qv g s = (Break (i + m), s')
               \<and> count_evals (calls s') = count_evals (calls s) + Suc m
               \<and> count_expands (calls s') = count_expands (calls s) + m
               \<and> last (calls s') = EvalReq (collected s') g))"
  using iter
proof (induction n arbitrary: i qv qs s m)
  case 0
  show ?case by simp
next
  case (Suc n)
  from search_pass_ok [OF searches Suc.prems, of s] obtain items where
    pass: "search_pass w qv s = (Inr (), s\<lparr>collected := collected s @ items, calls := calls s @ map SearchReq qs\<rparr>)"
    by blast
  define s1 where "s1 = s\<lparr>collected := collected s @ items, calls := calls s @ map SearchReq qs\<rparr>"
  define s2 where "s2 = s1\<lparr>calls := calls s1 @ [EvalReq (collected s1) g]\<rparr>"
  define s3 where "s3 = s2\<lparr>calls := calls s2 @ [ExpandReq (collected s2) g None]\<rparr>"
  have e1: "count_evals (calls s1) = count_evals (calls s)" by (simp add: s1_def)
  have ev: "evaluate w (collected s1) g s1 = (Inr (yes (count_evals (calls s))), s2)"
    using evaluator [of "collected s1" s1] snd_evaluate [of w "collected s1" g s1]
    by (cases "evaluate w (collected s1) g s1") (simp add: e1 s2_def)
  from expands [of "collected s2" s2] obtain v vs where
    v: "fst (get_more_queries w (collected s2) g None s2) = Inr v" "py_iter v = Inr vs" by blast
  have ex: "get_more_queries w (collected s2) g None s2 = (Inr v, s3)"
    using v(1) snd_get_more_queries [of w "collected s2" g None s2]
    by (cases "get_more_queries w (collected s2) g None s2") (simp add: s3_def)
  have e3: "count_evals (calls s3) = Suc (count_evals (calls s))"
    by (simp add: s3_def s2_def s1_def count_evals_def)
  have x3: "count_expands (calls s3) = Suc (count_expands (calls s))"
    by (simp add: s3_def s2_def s1_def count_expands_def)
  have x2: "count_expands (calls s2) = count_expands (calls s)"
    by (simp add: s2_def s1_def count_expands_def)
  have e2: "count_evals (calls s2) = Suc (count_evals (calls s))"
    by (simp add: s2_def s1_def count_evals_def)
  show ?case
  proof (cases "yes (count_evals (calls s))")
    case True
    have "research_loop (Suc n) w i qv g s = (Break i, s2)"
      using pass ev True by (simp add: s1_def)
    moreover have "last (calls s2) = EvalReq (collected s2) g" by (simp add: s2_def)
    moreover have "m = 0" if "\<forall>k<m. \<not> yes (count_evals (calls s) + k)"
      using that True by (cases m) auto
    ultimately show ?thesis using True e2 x2 by auto
  next
    case False
    have unfold: "research_loop (Suc n) w i qv g s = research_loop n w (Suc i) v g s3"
      using pass ev ex False by (simp add: s1_def)
    note IH = Suc.IH [OF v(2), of s3 "Suc i"]
    have A: "\<exists>qv' s'. research_loop (Suc n) w i qv g s = (Running (i + Suc n) qv', s')
               \<and> count_evals (calls s') = count_evals (calls s) + Suc n
               \<and> count_expands (calls s') = count_expands (calls s) + Suc n"
      if h: "\<forall>k<Suc n. \<not> yes (count_evals (calls s) + k)"
    proof -
      have "\<not> yes (count_evals (calls s3) + k)" if "k < n" for k
        using h [rule_format, of "Suc k"] that by (simp add: e3)
      with IH [of 0] show ?thesis unfolding unfold e3 x3 by auto
    qed
    have B: "\<exists>s'. research_loop (Suc n) w i qv g s = (Break (i + m), s')
               \<and> count_evals (calls s') = count_evals (calls s) + Suc m
               \<and> count_expands (calls s') = count_expands (calls s) + m
               \<and> last (calls s') = EvalReq (collected s') g"
      if h: "\<forall>k<m. \<not> yes (count_evals (calls s) + k)" "yes (count_evals (calls s) + m)" "m < Suc n"
    proof -
      from h(2) False obtain m' where m: "m = Suc m'" by (cases m) auto
      have "\<not> yes (count_evals (calls s3) + k)" if "k < m'" for k
        using h(1) [rule_format, of "Suc k"] that by (simp add: e3 m)
      moreover have "yes (count_evals (calls s3) + m')" using h(2) by (simp add: e3 m)
      moreover have "m' < n" using h(3) m by simp
      ultimately show ?thesis using IH [of m'] unfolding unfold e3 x3 m by auto
    qed
    from A B show ?thesis by blast
  qed
qed

lemma search_pass_calls:
  assumes "py_iter qv = Inr qs"
  shows "(\<exists>k\<le>length qs. calls (snd (search_pass w qv s)) = calls s @ map SearchReq (take k qs))
       \<and> (\<not> isl (fst (search_pass w qv s)) \<longrightarrow>
            calls (snd (search_pass w qv s)) = calls s @ map SearchReq qs
          \<and> (\<exists>items. collected (snd (search_pass w qv s)) = collected s @ items
                \<and> map query items = qs)
          \<and> (\<exists>rest. calls (snd (research_loop (Suc n) w i qv g s))
                = calls s @ map SearchReq qs
                    @ EvalReq (collected (snd (search_pass w qv s))) g # rest))"
proof -
  from search_items_shape [of qs w s] obtain items m where
    sh: "length items \<le> m" "m \<le> length qs"
      "snd (search_items w qs s)
         = s\<lparr>collected := collected s @ items, calls := calls s @ map SearchReq (take m qs)\<rparr>"
      "map query items = take (length items) qs"
      "if isl (fst (search_items w qs s)) then length items < m
       else length items = length qs \<and> m = length qs"
    by blast
  have pass: "search_pass w qv s = search_items w qs s"
    using assms by (simp add: search_pass_def)
  have A: "\<exists>k\<le>length qs. calls (snd (search_pass w qv s)) = calls s @ map SearchReq (take k qs)"
    using sh(2,3) unfolding pass by auto
  have B: "calls (snd (search_pass w qv s)) = calls s @ map SearchReq qs
          \<and> (\<exists>items. collected (snd (search_pass w qv s)) = collected s @ items
                \<and> map query items = qs)
          \<and> (\<exists>rest. calls (snd (research_loop (Suc n) w i qv g s))
                = calls s @ map SearchReq qs
                    @ EvalReq (collected (snd (search_pass w qv s))) g # rest)"
    if ok: "\<not> isl (fst (search_pass w qv s))"
  proof -
    from ok sh(5) have full: "length items = length qs" "m = length qs"
      unfolding pass by auto
    define s1 where "s1 = s\<lparr>collected := collected s @ items, calls := calls s @ map SearchReq qs\<rparr>"
    have snd1: "snd (search_pass w qv s) = s1"
      unfolding pass sh(3) by (simp add: full s1_def)
    from ok obtain u where p1: "search_pass w qv s = (Inr u, s1)"
      using snd1 by (cases "search_pass w qv s"; cases "fst (search_pass w qv s)") auto
    define s2 where "s2 = s1\<lparr>calls := calls s1 @ [EvalReq (collected s1) g]\<rparr>"
    obtain r2 where r2: "evaluate w (collected s1) g s1 = (r2, s2)"
      using snd_evaluate [of w "collected s1" g s1]
      by (cases "evaluate w (collected s1) g s1") (simp add: s2_def)
    have "\<exists>rest. calls (snd (research_loop (Suc n) w i qv g s)) = calls s2 @ rest"
    proof (cases r2)
      case (Inl e)
      then show ?thesis using p1 r2 by simp
    next
      case (Inr b)
      show ?thesis
      proof (cases b)
        case True
        then show ?thesis using p1 r2 Inr by simp
      next
        case False
        define s3 where "s3 = s2\<lparr>calls := calls s2 @ [ExpandReq (collected s2) g None]\<rparr>"
        obtain r3 where r3: "get_more_queries w (collected s2) g None s2 = (r3, s3)"
          using snd_get_more_queries [of w "collected s2" g None s2]
          by (cases "get_more_queries w (collected s2) g None s2") (simp add: s3_def)
        show ?thesis
        proof (cases r3)
          case (Inl e)
          then show ?thesis using p1 r2 Inr False r3 by (simp add: s3_def)
        next
          case (Inr qv')
          from research_loop_shape [of n w "Suc i" qv' g s3] obtain cs where
            "calls (snd (research_loop n w (Suc i) qv' g s3)) = calls s3 @ cs" by auto
          then show ?thesis using p1 r2 \<open>r2 = Inr b\<close> False r3 Inr by (simp add: s3_def)
        qed
      qed
    qed
    then obtain rest where "calls (snd (research_loop (Suc n) w i qv g s)) = calls s2 @ rest"
      by blast
    then have "calls (snd (research_loop (Suc n) w i qv g s))
        = calls s @ map SearchReq qs @ EvalReq (collected s1) g # rest"
      by (simp add: s2_def s1_def)
    moreover have "calls s1 = calls s @ map SearchReq qs" by (simp add: s1_def)
    moreover have "collected s1 = collected s @ items \<and> map query items = qs"
      using sh(4) full by (simp add: s1_def)
    ultimately show ?thesis unfolding snd1 by blast
  qed
  from A B show ?thesis by blast
qed

lemma stub_never_fails: "never_fails (stub_world N more_reply) g"
  unfolding never_fails_def using stub_searches stub_expands by blast

lemma stub_answers: "stub_evaluator (stub_world N reply) g (\<lambda>k. Suc k = N)"
  unfolding stub_evaluator_def using stub_verdict by blast

section \<open>The loop ends at the first positive evaluation, and only there\<close>

text \<open>
  Claim C1. One iteration of the loop is one search pass over the active queries and one
  evaluation, followed by one expansion when the answer is negative and by nothing when
  it is positive. For every gateway and every start of the loop: the loop is still
  running after \<open>n\<close> iterations exactly if \<open>n\<close> negative iterations followed one another,
  for every \<open>n\<close>, so it has no cap of its own; and it is left by \<^verbatim>\<open>break\<close> with
  \<^verbatim>\<open>_\<close> = \<open>i + m\<close> exactly if \<open>m\<close> negative iterations were followed by a positive one, that
  is after \<open>Suc m\<close> passes. \<open>n\<close> negative iterations make \<open>n\<close> evaluation and \<open>n\<close>
  expansion calls; every iteration makes one search call for each query of its active
  set; a positive iteration makes one evaluation call and no expansion call, and its
  evaluation is the last call on record. In particular, on a gateway where no
  search and no expansion fails and with a stub evaluator that answers \<open>yes k\<close> to
  evaluation call number \<open>k\<close>: as long as the first \<open>n\<close> answers are negative the loop is
  still running after \<open>n\<close> iterations, and if call number \<open>Suc m\<close> is the first with a
  positive answer, then with room for more than \<open>m\<close> iterations the loop is left in
  iteration \<open>Suc m\<close>, after exactly \<open>Suc m\<close> passes, \<open>Suc m\<close> evaluations and \<open>m\<close>
  expansions.
\<close>

theorem research_loop_stops_at_first_yes:
  "(research_loop n w i qv g s = (Running j qv', s')
      \<longleftrightarrow> j = i + n \<and> (negative_iteration w g ^^ n) (qv, s) (qv', s'))
   \<and> (research_loop n w i qv g s = (Break j, s')
      \<longleftrightarrow> (\<exists>m qv0 s0. m < n \<and> j = i + m
             \<and> (negative_iteration w g ^^ m) (qv, s) (qv0, s0)
             \<and> positive_iteration w g (qv0, s0) s'))
   \<and> ((negative_iteration w g ^^ n) (qv, s) (qv', s') \<longrightarrow>
         count_evals (calls s') = count_evals (calls s) + n
       \<and> count_expands (calls s') = count_expands (calls s) + n)
   \<and> (negative_iteration w g (qa, sa) (qb, sb) \<longrightarrow>
         (\<exists>qs. py_iter qa = Inr qs
            \<and> count_searches (calls sb) = count_searches (calls sa) + length qs))
   \<and> (positive_iteration w g (qv', s') s'' \<longrightarrow>
         (\<exists>qs. py_iter qv' = Inr qs
            \<and> count_searches (calls s'') = count_searches (calls s') + length qs)
       \<and> count_evals (calls s'') = Suc (count_evals (calls s'))
       \<and> count_expands (calls s'') = count_expands (calls s')
       \<and> last (calls s'') = EvalReq (collected s'') g)
   \<and> (never_fails w g \<and> stub_evaluator w g yes \<and> py_iter qv = Inr qs \<longrightarrow>
         ((\<forall>k<n. \<not> yes (count_evals (calls s) + k)) \<longrightarrow>
            (\<exists>qv1 s1. research_loop n w i qv g s = (Running (i + n) qv1, s1)
               \<and> (negative_iteration w g ^^ n) (qv, s) (qv1, s1)
               \<and> count_evals (calls s1) = count_evals (calls s) + n
               \<and> count_expands (calls s1) = count_expands (calls s) + n))
       \<and> ((\<forall>k<m. \<not> yes (count_evals (calls s) + k)) \<and> yes (count_evals (calls s) + m) \<and> m < n \<longrightarrow>
            (\<exists>qv0 s0 s1. research_loop n w i qv g s = (Break (i + m), s1)
               \<and> (negative_iteration w g ^^ m) (qv, s) (qv0, s0)
               \<and> positive_iteration w g (qv0, s0) s1
               \<and> count_evals (calls s1) = count_evals (calls s) + Suc m
               \<and> count_expands (calls s1) = count_expands (calls s) + m
               \<and> last (calls s1) = EvalReq (collected s1) g)))"
proof -
  have cn: "count_evals (calls s') = count_evals (calls s) + n
       \<and> count_expands (calls s') = count_expands (calls s) + n"
    if "(negative_iteration w g ^^ n) (qv, s) (qv', s')"
    using negative_iterations_counts [OF that] by simp
  have cs: "\<exists>qs. py_iter qa = Inr qs
            \<and> count_searches (calls sb) = count_searches (calls sa) + length qs"
    if "negative_iteration w g (qa, sa) (qb, sb)"
    using negative_iteration_searches [OF that] by simp
  have cp: "(\<exists>qs. py_iter qv' = Inr qs
            \<and> count_searches (calls s'') = count_searches (calls s') + length qs)
       \<and> count_evals (calls s'') = Suc (count_evals (calls s'))
       \<and> count_expands (calls s'') = count_expands (calls s')
       \<and> last (calls s'') = EvalReq (collected s'') g"
    if "positive_iteration w g (qv', s') s''"
    using positive_iteration_counts [OF that] positive_iteration_searches [OF that] by simp
  have stub: "((\<forall>k<n. \<not> yes (count_evals (calls s) + k)) \<longrightarrow>
            (\<exists>qv1 s1. research_loop n w i qv g s = (Running (i + n) qv1, s1)
               \<and> (negative_iteration w g ^^ n) (qv, s) (qv1, s1)
               \<and> count_evals (calls s1) = count_evals (calls s) + n
               \<and> count_expands (calls s1) = count_expands (calls s) + n))
       \<and> ((\<forall>k<m. \<not> yes (count_evals (calls s) + k)) \<and> yes (count_evals (calls s) + m) \<and> m < n \<longrightarrow>
            (\<exists>qv0 s0 s1. research_loop n w i qv g s = (Break (i + m), s1)
               \<and> (negative_iteration w g ^^ m) (qv, s) (qv0, s0)
               \<and> positive_iteration w g (qv0, s0) s1
               \<and> count_evals (calls s1) = count_evals (calls s) + Suc m
               \<and> count_expands (calls s1) = count_expands (calls s) + m
               \<and> last (calls s1) = EvalReq (collected s1) g))"
    if nf: "never_fails w g" and ev: "stub_evaluator w g yes" and it: "py_iter qv = Inr qs"
  proof -
    note run = stub_evaluator_run [of w g yes qv qs n s i m,
        OF nf [unfolded never_fails_def, THEN conjunct1, rule_format]
           nf [unfolded never_fails_def, THEN conjunct2, rule_format]
           ev [unfolded stub_evaluator_def, rule_format] it]
    have A: "\<exists>qv1 s1. research_loop n w i qv g s = (Running (i + n) qv1, s1)
               \<and> (negative_iteration w g ^^ n) (qv, s) (qv1, s1)
               \<and> count_evals (calls s1) = count_evals (calls s) + n
               \<and> count_expands (calls s1) = count_expands (calls s) + n"
      if "\<forall>k<n. \<not> yes (count_evals (calls s) + k)"
    proof -
      from run that obtain qv1 s1 where
        r: "research_loop n w i qv g s = (Running (i + n) qv1, s1)"
          "count_evals (calls s1) = count_evals (calls s) + n"
          "count_expands (calls s1) = count_expands (calls s) + n" by blast
      from r(1) have "(negative_iteration w g ^^ n) (qv, s) (qv1, s1)"
        by (simp add: running_iff)
      with r show ?thesis by blast
    qed
    have B: "\<exists>qv0 s0 s1. research_loop n w i qv g s = (Break (i + m), s1)
               \<and> (negative_iteration w g ^^ m) (qv, s) (qv0, s0)
               \<and> positive_iteration w g (qv0, s0) s1
               \<and> count_evals (calls s1) = count_evals (calls s) + Suc m
               \<and> count_expands (calls s1) = count_expands (calls s) + m
               \<and> last (calls s1) = EvalReq (collected s1) g"
      if "(\<forall>k<m. \<not> yes (count_evals (calls s) + k)) \<and> yes (count_evals (calls s) + m) \<and> m < n"
    proof -
      from run that obtain s1 where
        r: "research_loop n w i qv g s = (Break (i + m), s1)"
          "count_evals (calls s1) = count_evals (calls s) + Suc m"
          "count_expands (calls s1) = count_expands (calls s) + m"
          "last (calls s1) = EvalReq (collected s1) g" by blast
      from r(1) obtain m' qv0 s0 where
        "i + m = i + m'" "(negative_iteration w g ^^ m') (qv, s) (qv0, s0)"
        "positive_iteration w g (qv0, s0) s1"
        unfolding break_iff by blast
      then have "(negative_iteration w g ^^ m) (qv, s) (qv0, s0)"
        "positive_iteration w g (qv0, s0) s1" by simp_all
      with r show ?thesis by blast
    qed
    from A B show ?thesis by blast
  qed
  from running_iff [of n w i qv g s j qv' s'] break_iff [of n w i qv g s j s'] cn cs cp stub
  show ?thesis by blast
qed

theorem research_loop_stops_at_first_yes_witness:
  "(\<exists>qv1 s1. research_loop 1 (stub_world 2 more_reply) 0 (queries planned) (goal planned) planned
                = (Running 1 qv1, s1)
       \<and> (negative_iteration (stub_world 2 more_reply) (goal planned) ^^ 1)
            (queries planned, planned) (qv1, s1)
       \<and> count_evals (calls s1) = 1 \<and> count_expands (calls s1) = 1)
   \<and> (\<exists>qv0 s0 s1. research_loop 7 (stub_world 2 more_reply) 0 (queries planned) (goal planned) planned
                = (Break 1, s1)
       \<and> (negative_iteration (stub_world 2 more_reply) (goal planned) ^^ 1)
            (queries planned, planned) (qv0, s0)
       \<and> positive_iteration (stub_world 2 more_reply) (goal planned) (qv0, s0) s1
       \<and> count_evals (calls s1) = 2 \<and> count_expands (calls s1) = 1
       \<and> last (calls s1) = EvalReq (collected s1) (goal planned))
   \<and> count_searches (calls (snd (research_loop 7 (stub_world 2 more_reply) 0 (queries planned)
         (goal planned) planned))) = 7
   \<and> length (collected (snd (research_loop 7 (stub_world 2 more_reply) 0 (queries planned)
         (goal planned) planned))) = 7"
proof -
  let ?w = "stub_world 2 more_reply"
  let ?g = "goal planned"
  have c0: "count_evals (calls planned) = 0" "count_expands (calls planned) = 0"
    by (simp_all add: planned_def count_evals_def count_expands_def)
  have pre: "never_fails ?w ?g \<and> stub_evaluator ?w ?g (\<lambda>k. Suc k = 2)
      \<and> py_iter (queries planned) = Inr plan_queries"
    using stub_never_fails stub_answers planned_iter by blast
  have n1: "\<forall>k<1. \<not> Suc (count_evals (calls planned) + k) = 2"
    by (simp add: c0)
  have n7: "(\<forall>k<1. \<not> Suc (count_evals (calls planned) + k) = 2)
      \<and> Suc (count_evals (calls planned) + 1) = 2 \<and> (1::nat) < 7"
    by (simp add: c0)
  note stub1 = research_loop_stops_at_first_yes [where w = "?w" and g = "?g" and yes = "\<lambda>k. Suc k = 2"
      and qv = "queries planned" and qs = plan_queries and s = planned and i = 0
      and n = 1 and m = 0,
      THEN conjunct2, THEN conjunct2, THEN conjunct2, THEN conjunct2, THEN conjunct2,
      THEN mp, OF pre,
      THEN conjunct1, THEN mp, OF n1]
  note stub7 = research_loop_stops_at_first_yes [where w = "?w" and g = "?g" and yes = "\<lambda>k. Suc k = 2"
      and qv = "queries planned" and qs = plan_queries and s = planned and i = 0
      and n = 7 and m = 1,
      THEN conjunct2, THEN conjunct2, THEN conjunct2, THEN conjunct2, THEN conjunct2,
      THEN mp, OF pre,
      THEN conjunct2, THEN mp, OF n7]
  have A: "\<exists>qv1 s1. research_loop 1 ?w 0 (queries planned) ?g planned = (Running 1 qv1, s1)
       \<and> (negative_iteration ?w ?g ^^ 1) (queries planned, planned) (qv1, s1)
       \<and> count_evals (calls s1) = 1 \<and> count_expands (calls s1) = 1"
    using stub1 unfolding c0 by (simp only: add_0)
  have B: "\<exists>qv0 s0 s1. research_loop 7 ?w 0 (queries planned) ?g planned = (Break 1, s1)
       \<and> (negative_iteration ?w ?g ^^ 1) (queries planned, planned) (qv0, s0)
       \<and> positive_iteration ?w ?g (qv0, s0) s1
       \<and> count_evals (calls s1) = 2 \<and> count_expands (calls s1) = 1
       \<and> last (calls s1) = EvalReq (collected s1) ?g"
    using stub7 unfolding c0 by (simp only: add_0 Suc_1)
  have C: "count_searches (calls (snd (research_loop 7 ?w 0 (queries planned) ?g planned))) = 7"
    by code_simp
  have D: "length (collected (snd (research_loop 7 ?w 0 (queries planned) ?g planned))) = 7"
    by code_simp
  from A B C D show ?thesis by blast
qed

section \<open>A search pass asks once for each query, in order\<close>

text \<open>
  Claim C2. A search pass over the queries \<open>qs\<close> that the iteration of \<^verbatim>\<open>queries\<close>
  visits calls the gateway for a prefix of \<open>qs\<close>, one search call per query and in the
  order of \<open>qs\<close>, and for nothing else. A pass that is not ended by an exception has
  handed every query to \<^verbatim>\<open>run_search\<close> once, in order, and has appended what each of
  these calls returned, in the same order, behind the evidence collected before; it has
  changed nothing else, and in the loop the next call after these searches is the
  evaluation of the extended evidence. So the first pass over the five queries of a plan
  makes exactly five search calls. A pass that is ended by an exception has done the same
  for the queries before the failing one, and the loop ends with that exception.
\<close>

theorem search_pass_one_call_per_query:
  assumes "py_iter qv = Inr qs"
  shows "(\<exists>k\<le>length qs. calls (snd (search_pass w qv s)) = calls s @ map SearchReq (take k qs))
       \<and> (\<not> isl (fst (search_pass w qv s)) \<longrightarrow>
            (\<exists>items. searched w s qs items
               \<and> snd (search_pass w qv s) = pass_state s qs items
               \<and> calls (snd (search_pass w qv s)) = calls s @ map SearchReq qs
               \<and> collected (snd (search_pass w qv s)) = collected s @ items
               \<and> length items = length qs
               \<and> map query items = qs
               \<and> (\<exists>rest. calls (snd (research_loop (Suc n) w i qv g s))
                     = calls s @ map SearchReq qs @ EvalReq (collected s @ items) g # rest)))
       \<and> (\<forall>e. fst (search_pass w qv s) = Inl e \<longrightarrow>
            (\<exists>k items. k < length qs
               \<and> searched w s (take k qs) items
               \<and> fst (run_search w (qs ! k) (pass_state s (take k qs) items)) = Inl e
               \<and> snd (search_pass w qv s)
                   = (pass_state s (take k qs) items)
                       \<lparr>calls := calls (pass_state s (take k qs) items) @ [SearchReq (qs ! k)]\<rparr>
               \<and> research_loop (Suc n) w i qv g s = (Raise e, snd (search_pass w qv s))))"
proof -
  note old = search_pass_calls [OF assms, of w s n i g]
  have A: "\<exists>k\<le>length qs. calls (snd (search_pass w qv s)) = calls s @ map SearchReq (take k qs)"
    using old by blast
  have B: "\<exists>items. searched w s qs items
               \<and> snd (search_pass w qv s) = pass_state s qs items
               \<and> calls (snd (search_pass w qv s)) = calls s @ map SearchReq qs
               \<and> collected (snd (search_pass w qv s)) = collected s @ items
               \<and> length items = length qs
               \<and> map query items = qs
               \<and> (\<exists>rest. calls (snd (research_loop (Suc n) w i qv g s))
                     = calls s @ map SearchReq qs @ EvalReq (collected s @ items) g # rest)"
    if ok: "\<not> isl (fst (search_pass w qv s))"
  proof -
    obtain r s1 where p: "search_pass w qv s = (r, s1)" by (cases "search_pass w qv s")
    with ok obtain u where "r = Inr u" by (cases r) auto
    with p assms obtain items where
      it: "searched w s qs items" "s1 = pass_state s qs items"
      by (auto simp: search_pass_iff)
    have snd1: "snd (search_pass w qv s) = pass_state s qs items" using p it by simp
    from old ok obtain rest where
      "calls (snd (research_loop (Suc n) w i qv g s))
         = calls s @ map SearchReq qs @ EvalReq (collected (snd (search_pass w qv s))) g # rest"
      by blast
    then have "calls (snd (research_loop (Suc n) w i qv g s))
         = calls s @ map SearchReq qs @ EvalReq (collected s @ items) g # rest"
      by (simp add: snd1 pass_state_def)
    with it(1) snd1 searched_length [OF it(1)] show ?thesis
      by (auto simp: pass_state_def)
  qed
  have C: "\<exists>k items. k < length qs
               \<and> searched w s (take k qs) items
               \<and> fst (run_search w (qs ! k) (pass_state s (take k qs) items)) = Inl e
               \<and> snd (search_pass w qv s)
                   = (pass_state s (take k qs) items)
                       \<lparr>calls := calls (pass_state s (take k qs) items) @ [SearchReq (qs ! k)]\<rparr>
               \<and> research_loop (Suc n) w i qv g s = (Raise e, snd (search_pass w qv s))"
    if bad: "fst (search_pass w qv s) = Inl e" for e
  proof -
    obtain s1 where p: "search_pass w qv s = (Inl e, s1)"
      using bad by (cases "search_pass w qv s") auto
    then have "search_items w qs s = (Inl e, s1)"
      using assms by (simp add: search_pass_def)
    from search_items_fail [OF this] p show ?thesis by auto
  qed
  from A B C show ?thesis by blast
qed

theorem search_pass_one_call_per_query_witness:
  "length plan_queries = 5
   \<and> (\<exists>items. searched (stub_world 1 more_reply) planned plan_queries items
         \<and> snd (search_pass (stub_world 1 more_reply) (queries planned) planned)
             = pass_state planned plan_queries items
         \<and> calls (snd (search_pass (stub_world 1 more_reply) (queries planned) planned))
             = map SearchReq plan_queries
         \<and> collected (snd (search_pass (stub_world 1 more_reply) (queries planned) planned))
             = items
         \<and> length items = 5
         \<and> map query items = plan_queries
         \<and> (\<exists>rest. calls (snd (research_loop 1 (stub_world 1 more_reply) 0 (queries planned)
                          (goal planned) planned))
               = map SearchReq plan_queries @ EvalReq items (goal planned) # rest))
   \<and> py_iter (JStr [CHR ''a'', CHR 0xE2, CHR 0x82, CHR 0xAC])
       = Inr [JStr ''a'', JStr [CHR 0xE2, CHR 0x82, CHR 0xAC]]
   \<and> calls (snd (search_pass (stub_world 1 more_reply) (JStr [CHR ''a'', CHR 0xE2, CHR 0x82, CHR 0xAC])
         planned))
       = [SearchReq (JStr ''a''), SearchReq (JStr [CHR 0xE2, CHR 0x82, CHR 0xAC])]"
proof -
  let ?w = "stub_world 1 more_reply"
  let ?euro = "JStr [CHR ''a'', CHR 0xE2, CHR 0x82, CHR 0xAC]"
  have five: "length plan_queries = 5" by (simp add: plan_queries_def)
  have ok: "\<not> isl (fst (search_pass ?w (queries planned) planned))"
    by code_simp
  have it: "py_iter ?euro = Inr [JStr ''a'', JStr [CHR 0xE2, CHR 0x82, CHR 0xAC]]"
    by code_simp
  have ok2: "\<not> isl (fst (search_pass ?w ?euro planned))"
    by code_simp
  note inst = search_pass_one_call_per_query [where w = "?w" and s = planned and n = 0
      and i = 0 and g = "goal planned", OF planned_iter]
  note inst2 = search_pass_one_call_per_query [where w = "?w" and s = planned and n = 0
      and i = 0 and g = "goal planned", OF it]
  from inst [THEN conjunct2, THEN conjunct1, THEN mp, OF ok]
  have A: "\<exists>items. searched ?w planned plan_queries items
         \<and> snd (search_pass ?w (queries planned) planned) = pass_state planned plan_queries items
         \<and> calls (snd (search_pass ?w (queries planned) planned)) = map SearchReq plan_queries
         \<and> collected (snd (search_pass ?w (queries planned) planned)) = items
         \<and> length items = 5
         \<and> map query items = plan_queries
         \<and> (\<exists>rest. calls (snd (research_loop 1 ?w 0 (queries planned) (goal planned) planned))
               = map SearchReq plan_queries @ EvalReq items (goal planned) # rest)"
    unfolding planned_calls planned_collected append_Nil One_nat_def five by blast
  from inst2 [THEN conjunct2, THEN conjunct1, THEN mp, OF ok2]
  have B: "calls (snd (search_pass ?w ?euro planned))
       = [SearchReq (JStr ''a''), SearchReq (JStr [CHR 0xE2, CHR 0x82, CHR 0xAC])]"
    unfolding planned_calls by auto
  from five A it B show ?thesis by blast
qed

section \<open>The evaluator looks for the substring yes\<close>

text \<open>
  Claim C3. When the gateway answers the evaluation request with a reply text,
  \<^verbatim>\<open>evaluate\<close> returns true exactly if the lowercased text can be split into a part
  before, the three characters \<^verbatim>\<open>yes\<close>, and a part after; otherwise it returns false.
\<close>

theorem evaluate_yes_substring:
  assumes "create w (calls s) (EvalReq c g) = Some r"
    and "output_text r 0 = Inr text"
  shows "fst (evaluate w c g s) = Inr (\<exists>pre post. lower text = pre @ ''yes'' @ post)"
  using assms by (simp add: evaluate_def call_def str_in_iff)

theorem evaluate_yes_substring_witness:
  "fst (evaluate (stub_world 1 more_reply) [] (goal planned) planned) = Inr True
   \<and> (\<exists>pre post. lower ''Yes.'' = pre @ ''yes'' @ post)
   \<and> fst (evaluate (stub_world 2 more_reply) [] (goal planned) planned) = Inr False
   \<and> \<not> (\<exists>pre post. lower ''No'' = pre @ ''yes'' @ post)"
proof -
  have r1: "create (stub_world 1 more_reply) (calls planned) (EvalReq [] (goal planned))
      = Some [\<lparr>item_id = ''msg_review'', content = [''Yes.'']\<rparr>]"
    by (simp add: stub_world_def stub_create_def planned_def count_evals_def)
  have t1: "output_text [\<lparr>item_id = ''msg_review'', content = [''Yes.'']\<rparr>] 0 = Inr ''Yes.''"
    by (simp add: output_text_def py_index_def)
  have r2: "create (stub_world 2 more_reply) (calls planned) (EvalReq [] (goal planned))
      = Some [\<lparr>item_id = ''msg_review'', content = [''No'']\<rparr>]"
    by (simp add: stub_world_def stub_create_def planned_def count_evals_def)
  have t2: "output_text [\<lparr>item_id = ''msg_review'', content = [''No'']\<rparr>] 0 = Inr ''No''"
    by (simp add: output_text_def py_index_def)
  have e1: "fst (evaluate (stub_world 1 more_reply) [] (goal planned) planned) = Inr True"
    by code_simp
  have e2: "fst (evaluate (stub_world 2 more_reply) [] (goal planned) planned) = Inr False"
    by code_simp
  from evaluate_yes_substring [OF r1 t1] evaluate_yes_substring [OF r2 t2] e1 e2
  show ?thesis by simp
qed

section \<open>Evidence is only ever appended\<close>



section \<open>An empty or unparseable expansion reply stops the script\<close>

text \<open>
  Claim C5, as amended. \<^verbatim>\<open>get_more_queries\<close> reports and stops the script when the reply
  text of the expansion request is empty and when \<^verbatim>\<open>json.loads\<close> raises on it; every
  reply that \<^verbatim>\<open>json.loads\<close> accepts is returned as parsed, whatever its shape. When
  \<^verbatim>\<open>get_more_queries\<close> does not return, the research loop ends in that iteration with
  the same exception, whatever room for further iterations there is, and the expansion
  request is the last gateway call.
\<close>

theorem get_more_queries_stops_on_empty_or_invalid:
  "(\<forall>c g p s r reply.
      create w (calls s) (ExpandReq c g p) = Some r \<and> output_text r 0 = Inr reply \<longrightarrow>
        (reply = [] \<longrightarrow>
           get_more_queries w c g p s
             = (Inl StopEmptyResponse, s\<lparr>calls := calls s @ [ExpandReq c g p]\<rparr>))
      \<and> (reply \<noteq> [] \<and> loads w reply = None \<longrightarrow>
           get_more_queries w c g p s
             = (Inl (StopInvalidJSON reply), s\<lparr>calls := calls s @ [ExpandReq c g p]\<rparr>))
      \<and> (\<forall>v. reply \<noteq> [] \<and> loads w reply = Some v \<longrightarrow>
           get_more_queries w c g p s
             = (Inr v, s\<lparr>calls := calls s @ [ExpandReq c g p]\<rparr>)))
   \<and> (\<forall>n i qv g s e.
        (let s1 = snd (search_pass w qv s); s2 = snd (evaluate w (collected s1) g s1) in
           \<not> isl (fst (search_pass w qv s))
         \<and> fst (evaluate w (collected s1) g s1) = Inr False
         \<and> fst (get_more_queries w (collected s2) g None s2) = Inl e \<longrightarrow>
           research_loop (Suc n) w i qv g s
             = (Raise e, s2\<lparr>calls := calls s2 @ [ExpandReq (collected s2) g None]\<rparr>)))"
proof -
  have A: "(reply = [] \<longrightarrow>
           get_more_queries w c g p s
             = (Inl StopEmptyResponse, s\<lparr>calls := calls s @ [ExpandReq c g p]\<rparr>))
      \<and> (reply \<noteq> [] \<and> loads w reply = None \<longrightarrow>
           get_more_queries w c g p s
             = (Inl (StopInvalidJSON reply), s\<lparr>calls := calls s @ [ExpandReq c g p]\<rparr>))
      \<and> (\<forall>v. reply \<noteq> [] \<and> loads w reply = Some v \<longrightarrow>
           get_more_queries w c g p s
             = (Inr v, s\<lparr>calls := calls s @ [ExpandReq c g p]\<rparr>))"
    if "create w (calls s) (ExpandReq c g p) = Some r" "output_text r 0 = Inr reply"
    for c g p s r reply
    using that by (auto simp: get_more_queries_def call_def)
  have B: "research_loop (Suc n) w i qv g s
             = (Raise e, (snd (evaluate w (collected (snd (search_pass w qv s))) g (snd (search_pass w qv s))))
                  \<lparr>calls := calls (snd (evaluate w (collected (snd (search_pass w qv s))) g
                                       (snd (search_pass w qv s))))
                      @ [ExpandReq (collected (snd (evaluate w (collected (snd (search_pass w qv s))) g
                                       (snd (search_pass w qv s))))) g None]\<rparr>)"
    if ok: "\<not> isl (fst (search_pass w qv s))"
      and no: "fst (evaluate w (collected (snd (search_pass w qv s))) g (snd (search_pass w qv s)))
                 = Inr False"
      and x: "fst (get_more_queries w
                (collected (snd (evaluate w (collected (snd (search_pass w qv s))) g
                                       (snd (search_pass w qv s))))) g None
                (snd (evaluate w (collected (snd (search_pass w qv s))) g (snd (search_pass w qv s)))))
              = Inl e"
    for n i qv g s e
  proof -
    define s1 where "s1 = snd (search_pass w qv s)"
    define s2 where "s2 = snd (evaluate w (collected s1) g s1)"
    from ok obtain u where p: "search_pass w qv s = (Inr u, s1)"
      unfolding s1_def by (cases "search_pass w qv s"; cases "fst (search_pass w qv s)") auto
    from no have ev: "evaluate w (collected s1) g s1 = (Inr False, s2)"
      unfolding s1_def [symmetric] s2_def by (cases "evaluate w (collected s1) g s1") auto
    from x get_more_queries_result [of w "collected s2" g None s2]
    have gm: "get_more_queries w (collected s2) g None s2
        = (Inl e, s2\<lparr>calls := calls s2 @ [ExpandReq (collected s2) g None]\<rparr>)"
      unfolding s1_def [symmetric] s2_def [symmetric] by auto
    have "research_loop (Suc n) w i qv g s
        = (Raise e, s2\<lparr>calls := calls s2 @ [ExpandReq (collected s2) g None]\<rparr>)"
      using p ev gm by simp
    then show ?thesis unfolding s2_def s1_def .
  qed
  show ?thesis
    unfolding Let_def
    apply (intro conjI allI impI)
    subgoal for c g p s r reply using A [of s c g p r reply] by blast
    subgoal for c g p s r reply using A [of s c g p r reply] by blast
    subgoal for c g p s r reply v using A [of s c g p r reply] by blast
    subgoal for n i qv g s e using B [of qv s g e n i] by blast
    done
qed

theorem get_more_queries_stops_on_empty_or_invalid_witness:
  "loads (stub_world 5 ''not json'') ''not json'' = None
   \<and> get_more_queries (stub_world 5 ''not json'') [] (goal planned) None planned
       = (Inl (StopInvalidJSON ''not json''),
          planned\<lparr>calls := calls planned @ [ExpandReq [] (goal planned) None]\<rparr>)
   \<and> get_more_queries (stub_world 5 []) [] (goal planned) None planned
       = (Inl StopEmptyResponse,
          planned\<lparr>calls := calls planned @ [ExpandReq [] (goal planned) None]\<rparr>)
   \<and> get_more_queries (stub_world 5 more_reply) [] (goal planned) None planned
       = (Inr (JArr [JStr ''grid storage tenders'', JStr ''battery recycling'']),
          planned\<lparr>calls := calls planned @ [ExpandReq [] (goal planned) None]\<rparr>)
   \<and> fst (research_loop 4 (stub_world 5 ''not json'') 0 (queries planned) (goal planned) planned)
       = Raise (StopInvalidJSON ''not json'')
   \<and> count_searches (calls (snd (research_loop 4 (stub_world 5 ''not json'') 0 (queries planned)
         (goal planned) planned))) = 5
   \<and> count_expands (calls (snd (research_loop 4 (stub_world 5 ''not json'') 0 (queries planned)
         (goal planned) planned))) = 1"
proof -
  let ?w = "stub_world 5 ''not json''"
  let ?g = "goal planned"
  have none: "loads ?w ''not json'' = None"
    by (simp add: stub_world_def stub_loads_def more_reply_def null_plan_reply_def
      object_reply_def)
  have some: "loads (stub_world 5 more_reply) more_reply
      = Some (JArr [JStr ''grid storage tenders'', JStr ''battery recycling''])"
    by (simp add: stub_world_def stub_loads_def)
  have ne: "''not json'' \<noteq> []" "more_reply \<noteq> []"
    by (simp_all add: more_reply_def)
  have reply: "create (stub_world N reply) h (ExpandReq c g p)
      = Some [\<lparr>item_id = ''msg_more'', content = [reply]\<rparr>]" for N reply h c g p
    by (simp add: stub_world_def stub_create_def)
  have tx: "output_text [\<lparr>item_id = ''msg_more'', content = [reply]\<rparr>] 0 = Inr reply" for reply
    by (simp add: output_text_def py_index_def)
  have A: "get_more_queries ?w [] ?g None planned
       = (Inl (StopInvalidJSON ''not json''),
          planned\<lparr>calls := calls planned @ [ExpandReq [] ?g None]\<rparr>)"
    using get_more_queries_stops_on_empty_or_invalid [where w = "?w", THEN conjunct1] reply tx ne none
    by simp
  have A2: "get_more_queries (stub_world 5 []) [] ?g None planned
       = (Inl StopEmptyResponse,
          planned\<lparr>calls := calls planned @ [ExpandReq [] ?g None]\<rparr>)"
    using get_more_queries_stops_on_empty_or_invalid [where w = "stub_world 5 []", THEN conjunct1] reply tx
    by simp
  have A3: "get_more_queries (stub_world 5 more_reply) [] ?g None planned
       = (Inr (JArr [JStr ''grid storage tenders'', JStr ''battery recycling'']),
          planned\<lparr>calls := calls planned @ [ExpandReq [] ?g None]\<rparr>)"
    using get_more_queries_stops_on_empty_or_invalid [where w = "stub_world 5 more_reply", THEN conjunct1] reply tx ne some
    by simp
  have ok: "\<not> isl (fst (search_pass ?w (queries planned) planned))"
    by code_simp
  have no: "fst (evaluate ?w (collected (snd (search_pass ?w (queries planned) planned))) ?g
               (snd (search_pass ?w (queries planned) planned))) = Inr False"
    by code_simp
  have x: "fst (get_more_queries ?w
             (collected (snd (evaluate ?w (collected (snd (search_pass ?w (queries planned) planned)))
                ?g (snd (search_pass ?w (queries planned) planned)))))
             ?g None
             (snd (evaluate ?w (collected (snd (search_pass ?w (queries planned) planned))) ?g
                (snd (search_pass ?w (queries planned) planned)))))
      = Inl (StopInvalidJSON ''not json'')"
    by code_simp
  note step = get_more_queries_stops_on_empty_or_invalid [THEN conjunct2, unfolded Let_def,
      THEN spec [where x = 3], THEN spec [where x = 0], THEN spec [where x = "queries planned"],
      THEN spec [where x = ?g], THEN spec [where x = planned],
      THEN spec [where x = "StopInvalidJSON ''not json''"], THEN mp]
  have B: "fst (research_loop (Suc 3) ?w 0 (queries planned) ?g planned)
       = Raise (StopInvalidJSON ''not json'')"
    by (subst step) (intro conjI ok no x, simp)
  have n4: "(4::nat) = Suc 3" by simp
  have C: "fst (research_loop 4 ?w 0 (queries planned) ?g planned)
       = Raise (StopInvalidJSON ''not json'')"
    unfolding n4 by (rule B)
  have D: "count_searches (calls (snd (research_loop 4 ?w 0 (queries planned) ?g planned))) = 5"
    by code_simp
  have E: "count_expands (calls (snd (research_loop 4 ?w 0 (queries planned) ?g planned))) = 1"
    by code_simp
  from none A A2 A3 C D E show ?thesis by blast
qed

text \<open>
  Two replies that \<^verbatim>\<open>json.loads\<close> accepts. The object \<open>object_reply\<close> is no list of
  query strings; \<^verbatim>\<open>get_more_queries\<close> returns it, and the next pass searches for its key.
  The empty list \<^verbatim>\<open>[]\<close> is returned as well, and the loop goes on with it: three passes
  and three evaluations are made, the second and the third pass without a single search.
\<close>

theorem expansion_reply_of_any_shape_accepted:
  "fst (get_more_queries (stub_world 2 object_reply) [] (goal planned) None planned)
     = Inr (JObj [(''a'', JNum ''1'')])
   \<and> fst (research_loop 2 (stub_world 2 object_reply) 0 (queries planned) (goal planned) planned)
       = Break 1
   \<and> count_searches (calls (snd (research_loop 2 (stub_world 2 object_reply) 0 (queries planned)
         (goal planned) planned))) = 6
   \<and> calls (snd (research_loop 2 (stub_world 2 object_reply) 0 (queries planned)
         (goal planned) planned)) ! 7 = SearchReq (JStr ''a'')
   \<and> fst (get_more_queries (stub_world 3 ''[]'') [] (goal planned) None planned) = Inr (JArr [])
   \<and> fst (research_loop 3 (stub_world 3 ''[]'') 0 (queries planned) (goal planned) planned)
       = Break 2
   \<and> count_searches (calls (snd (research_loop 3 (stub_world 3 ''[]'') 0 (queries planned)
         (goal planned) planned))) = 5
   \<and> count_evals (calls (snd (research_loop 3 (stub_world 3 ''[]'') 0 (queries planned)
         (goal planned) planned))) = 3
   \<and> count_expands (calls (snd (research_loop 3 (stub_world 3 ''[]'') 0 (queries planned)
         (goal planned) planned))) = 2"
  by code_simp

section \<open>A search needs the second output item\<close>

text \<open>
  Claim C6. When the gateway answers a search with fewer than two output items,
  \<^verbatim>\<open>run_search\<close> raises (the \<open>IndexError\<close> of \<^verbatim>\<open>output[1]\<close>) and returns no item; it
  raises in the same way when the second item has no content part. When the second item
  has a content part, the returned item holds the query, that item's id and the text of
  its first content part; and no item is ever returned that does not.
\<close>

theorem run_search_second_slot:
  assumes "create w (calls s) (SearchReq q) = Some r"
  shows "(length r < 2 \<longrightarrow> fst (run_search w q s) = Inl IndexError)
       \<and> (2 \<le> length r \<and> content (r ! 1) = [] \<longrightarrow> fst (run_search w q s) = Inl IndexError)
       \<and> (2 \<le> length r \<and> content (r ! 1) \<noteq> [] \<longrightarrow>
            fst (run_search w q s)
              = Inr \<lparr>query = q, resp_id = item_id (r ! 1), research_output = hd (content (r ! 1))\<rparr>)
       \<and> (\<forall>item. fst (run_search w q s) = Inr item \<longrightarrow>
            2 \<le> length r \<and> content (r ! 1) \<noteq> []
          \<and> query item = q \<and> resp_id item = item_id (r ! 1)
          \<and> research_output item = hd (content (r ! 1)))"
  using assms
  by (auto simp: run_search_def call_def output_text_def py_index_def hd_conv_nth
      split: if_splits)

theorem run_search_second_slot_witness:
  "fst (run_search \<lparr>create = (\<lambda>h req. Some [\<lparr>item_id = ''msg_only'', content = [''no search'']\<rparr>]),
                    loads = stub_loads\<rparr> (JStr ''grid storage costs'') planned)
     = Inl IndexError
   \<and> fst (run_search \<lparr>create = (\<lambda>h req. Some [\<lparr>item_id = ''ws_call'', content = []\<rparr>,
                                               \<lparr>item_id = ''ws_call_2'', content = []\<rparr>]),
                    loads = stub_loads\<rparr> (JStr ''grid storage costs'') planned)
     = Inl IndexError
   \<and> fst (run_search (stub_world 1 more_reply) (JStr ''grid storage costs'') planned)
     = Inr \<lparr>query = JStr ''grid storage costs'', resp_id = ''msg_found'',
            research_output = ''finding''\<rparr>"
proof -
  let ?one = "\<lparr>create = (\<lambda>h req. Some [\<lparr>item_id = ''msg_only'', content = [''no search'']\<rparr>]),
              loads = stub_loads\<rparr>"
  let ?two = "\<lparr>create = (\<lambda>h req. Some [\<lparr>item_id = ''ws_call'', content = []\<rparr>,
                                        \<lparr>item_id = ''ws_call_2'', content = []\<rparr>]),
              loads = stub_loads\<rparr>"
  let ?q = "JStr ''grid storage costs''"
  have r1: "create ?one (calls planned) (SearchReq ?q)
      = Some [\<lparr>item_id = ''msg_only'', content = [''no search'']\<rparr>]"
    by simp
  have r2: "create ?two (calls planned) (SearchReq ?q)
      = Some [\<lparr>item_id = ''ws_call'', content = []\<rparr>, \<lparr>item_id = ''ws_call_2'', content = []\<rparr>]"
    by simp
  have r3: "create (stub_world 1 more_reply) (calls planned) (SearchReq ?q)
      = Some [\<lparr>item_id = ''ws_call'', content = []\<rparr>,
              \<lparr>item_id = ''msg_found'', content = [''finding'']\<rparr>]"
    by (simp add: stub_world_def stub_create_def)
  from run_search_second_slot [OF r1] run_search_second_slot [OF r2] run_search_second_slot [OF r3]
  show ?thesis by simp
qed

section \<open>A plan reply that does not parse to an object with both keys is an error\<close>

text \<open>
  Claim C7, as amended. When the gateway answers the planning request with a reply text,
  \<^verbatim>\<open>get_goal_and_queries\<close> raises if \<^verbatim>\<open>json.loads\<close> raises on the text, if the parsed
  value is not an object, or if the object lacks the key \<^verbatim>\<open>goal\<close> or the key
  \<^verbatim>\<open>queries\<close>. An object with both keys is accepted, and the two values are returned
  whatever their types.
\<close>

theorem get_goal_and_queries_fails_unparseable:
  assumes "create w (calls s) (PlanReq qs as t) = Some r"
    and "output_text r 0 = Inr text"
  shows "(loads w text = None \<longrightarrow>
            fst (get_goal_and_queries w qs as t s) = Inl JSONDecodeError)
       \<and> (\<forall>v. loads w text = Some v \<and> (\<forall>kvs. v \<noteq> JObj kvs) \<longrightarrow>
            fst (get_goal_and_queries w qs as t s) = Inl TypeError)
       \<and> (\<forall>kvs. loads w text = Some (JObj kvs) \<and> map_of kvs ''goal'' = None \<longrightarrow>
            fst (get_goal_and_queries w qs as t s) = Inl (KeyError ''goal''))
       \<and> (\<forall>kvs gv. loads w text = Some (JObj kvs) \<and> map_of kvs ''goal'' = Some gv
              \<and> map_of kvs ''queries'' = None \<longrightarrow>
            fst (get_goal_and_queries w qs as t s) = Inl (KeyError ''queries''))
       \<and> (\<forall>kvs gv qv. loads w text = Some (JObj kvs) \<and> map_of kvs ''goal'' = Some gv
              \<and> map_of kvs ''queries'' = Some qv \<longrightarrow>
            fst (get_goal_and_queries w qs as t s) = Inr (gv, qv))"
proof -
  have not_obj: "py_getitem v ''goal'' = Inl TypeError" if "\<forall>kvs. v \<noteq> JObj kvs" for v
    using that by (cases v) auto
  show ?thesis
    using assms by (auto simp: get_goal_and_queries_def call_def not_obj)
qed

theorem get_goal_and_queries_fails_unparseable_witness:
  "loads (stub_world 1 ''not json'') ''not json'' = None
   \<and> fst (get_goal_and_queries (stub_world 1 ''not json'') [''For whom?''] [''Installers'']
            ''solar battery storage'' fresh) = Inl JSONDecodeError
   \<and> loads (stub_world 1 ''[]'') ''[]'' = Some (JArr [])
   \<and> fst (get_goal_and_queries (stub_world 1 ''[]'') [''For whom?''] [''Installers'']
            ''solar battery storage'' fresh) = Inl TypeError"
proof -
  have r: "create (stub_world 1 reply) (calls fresh)
             (PlanReq [''For whom?''] [''Installers''] ''solar battery storage'')
      = Some [\<lparr>item_id = ''msg_plan'', content = [reply]\<rparr>]" for reply
    by (simp add: stub_world_def stub_create_def)
  have tx: "output_text [\<lparr>item_id = ''msg_plan'', content = [reply]\<rparr>] 0 = Inr reply" for reply
    by (simp add: output_text_def py_index_def)
  have l1: "loads (stub_world 1 ''not json'') ''not json'' = None"
    by (simp add: stub_world_def stub_loads_def more_reply_def null_plan_reply_def
      object_reply_def)
  have l2: "loads (stub_world 1 ''[]'') ''[]'' = Some (JArr [])"
    by (simp add: stub_world_def stub_loads_def more_reply_def null_plan_reply_def
      object_reply_def)
  from get_goal_and_queries_fails_unparseable [OF r tx, of "''not json''"]
    get_goal_and_queries_fails_unparseable [OF r tx, of "''[]''"] l1 l2
  show ?thesis by simp
qed

text \<open>
  The stub gateway answers the planning request with an object whose \<^verbatim>\<open>goal\<close> and
  \<^verbatim>\<open>queries\<close> are both \<^verbatim>\<open>null\<close>: neither a string nor a sequence, and the call returns
  the pair without an error.
\<close>

theorem plan_untyped_values_accepted:
  "loads (stub_world 1 null_plan_reply) null_plan_reply
     = Some (JObj [(''goal'', JNull), (''queries'', JNull)])
   \<and> fst (get_goal_and_queries (stub_world 1 null_plan_reply) [''For whom?''] [''Installers'']
            ''solar battery storage'' fresh)
     = Inr (JNull, JNull)"
  by code_simp

section \<open>The goal is read, never written\<close>

text \<open>
  Claim C8. The research step, the loop after any number of iterations, a search, an
  evaluation and an expansion all leave the goal stored in the session unchanged, and
  every evaluation and expansion request the loop sends is built from the one goal the
  step read from the session when it started.
\<close>

theorem goal_never_modified:
  "goal (snd (research_step n w s)) = goal s
     \<and> list_all (carries_goal (goal s)) (drop (length (calls s)) (calls (snd (research_step n w s))))
     \<and> goal (snd (research_loop n w i qv g s)) = goal s
     \<and> list_all (carries_goal g) (drop (length (calls s)) (calls (snd (research_loop n w i qv g s))))
     \<and> goal (snd (run_search w q s)) = goal s
     \<and> goal (snd (evaluate w c g s)) = goal s
     \<and> goal (snd (get_more_queries w c g p s)) = goal s"
proof -
  have "goal (snd (research_step n w s)) = goal s
     \<and> list_all (carries_goal (goal s)) (drop (length (calls s)) (calls (snd (research_step n w s))))"
    using research_step_shape [of n w s] by auto
  moreover have "goal (snd (research_loop n w i qv g s)) = goal s
     \<and> list_all (carries_goal g) (drop (length (calls s)) (calls (snd (research_loop n w i qv g s))))"
    using research_loop_shape [of n w i qv g s] by auto
  ultimately show ?thesis
    by (simp add: snd_run_search snd_evaluate snd_get_more_queries)
qed

theorem goal_never_modified_witness:
  "goal (snd (research_step 7 (stub_world 2 more_reply) planned)) = goal planned
   \<and> list_all (carries_goal (goal planned))
        (drop (length (calls planned)) (calls (snd (research_step 7 (stub_world 2 more_reply) planned))))
   \<and> count_evals (calls (snd (research_step 7 (stub_world 2 more_reply) planned))) = 2
   \<and> count_expands (calls (snd (research_step 7 (stub_world 2 more_reply) planned))) = 1"
proof -
  have e: "count_evals (calls (snd (research_step 7 (stub_world 2 more_reply) planned))) = 2"
    by code_simp
  have x: "count_expands (calls (snd (research_step 7 (stub_world 2 more_reply) planned))) = 1"
    by code_simp
  from goal_never_modified [where n = 7 and w = "stub_world 2 more_reply" and s = planned]
    e x
  show ?thesis by blast
qed

section \<open>Expansion never continues an earlier conversation\<close>

text \<open>
  Claim C9. \<^verbatim>\<open>get_more_queries\<close> hands its third argument to the gateway as
  \<^verbatim>\<open>previous_response_id\<close>, and every expansion request that the loop or the research
  step adds to the record has \<open>None\<close> there.
\<close>

theorem expansion_prev_id_none:
  "snd (get_more_queries w c g p s) = s\<lparr>calls := calls s @ [ExpandReq c g p]\<rparr>
     \<and> list_all no_continuation (drop (length (calls s)) (calls (snd (research_step n w s))))
     \<and> list_all no_continuation
          (drop (length (calls s)) (calls (snd (research_loop n w i qv g s))))"
  using research_step_shape [of n w s] research_loop_shape [of n w i qv g s]
  by (auto simp: snd_get_more_queries)

theorem expansion_prev_id_none_witness:
  "list_all no_continuation
     (drop (length (calls planned)) (calls (snd (research_step 7 (stub_world 2 more_reply) planned))))
   \<and> count_expands (calls (snd (research_step 7 (stub_world 2 more_reply) planned))) = 1
   \<and> snd (get_more_queries (stub_world 2 more_reply) [] (goal planned) (Some ''msg_found'') planned)
       = planned\<lparr>calls := calls planned @ [ExpandReq [] (goal planned) (Some ''msg_found'')]\<rparr>"
proof -
  have x: "count_expands (calls (snd (research_step 7 (stub_world 2 more_reply) planned))) = 1"
    by code_simp
  from expansion_prev_id_none [where n = 7 and w = "stub_world 2 more_reply" and s = planned
      and c = "[]" and g = "goal planned" and p = "Some ''msg_found''"] x
  show ?thesis by blast
qed

section \<open>The expanded queries stay local to the loop\<close>

text \<open>
  Claim C10. After any number of iterations of the loop, and after the research step, the
  session's \<^verbatim>\<open>queries\<close> are what they were when the step started; an expansion rebinds
  only the local name.
\<close>

theorem session_queries_not_written:
  "queries (snd (research_step n w s)) = queries s
     \<and> queries (snd (research_loop n w i qv g s)) = queries s"
  using research_step_shape [of n w s] research_loop_shape [of n w i qv g s] by auto

theorem session_queries_not_written_witness:
  "fst (research_loop 1 (stub_world 2 more_reply) 0 (queries planned) (goal planned) planned)
     = Running 1 (JArr [JStr ''grid storage tenders'', JStr ''battery recycling''])
   \<and> queries (snd (research_loop 1 (stub_world 2 more_reply) 0 (queries planned) (goal planned)
         planned)) = queries planned
   \<and> fst (research_step 7 (stub_world 2 more_reply) planned) = Break 1
   \<and> queries (snd (research_step 7 (stub_world 2 more_reply) planned)) = queries planned"
proof -
  have a: "fst (research_loop 1 (stub_world 2 more_reply) 0 (queries planned) (goal planned) planned)
     = Running 1 (JArr [JStr ''grid storage tenders'', JStr ''battery recycling''])"
    by code_simp
  have b: "fst (research_step 7 (stub_world 2 more_reply) planned) = Break 1"
    by code_simp
  from session_queries_not_written [where n = 7 and w = "stub_world 2 more_reply" and s = planned]
    session_queries_not_written [where n = 1 and w = "stub_world 2 more_reply" and s = planned
      and i = 0 and qv = "queries planned" and g = "goal planned"] a b
  show ?thesis by blast
qed

end
